theory Spec2Isabelle
  imports Main "HOL-Library.AList"
begin

section \<open>The TacBoard server as a state machine\<close>

text \<open>
  The server (the first, fullest version of the server script) keeps one shared board
  (\<open>state\<close>), two id counters, the recorder \<open>rec\<close>, the replay engine \<open>rep\<close>, the saved
  recordings and the board presets. Every socket handler runs to completion, so a
  handler is a function from the server state to the next state and the list of
  messages it emits, in the order of the \<open>emit\<close> calls.

  Conventions of the embedding:
  \<^item> a JavaScript object used as a dictionary (\<open>state.tokens\<close>, \<open>state.users\<close>) is an
    association list in insertion order, which is the order \<open>Object.values\<close> reads;
    \<open>obj[k] = v\<close> is \<open>AList.update\<close>, \<open>delete obj[k]\<close> is \<open>AList.delete\<close>. A read
    \<open>obj[k]\<close> with a key that comes from a client looks among the own keys (\<open>map_of\<close>)
    and then among the properties every plain object inherits (\<open>objectPrototype\<close>), as
    the property lookup of the language does; the keys of \<open>state.users\<close> are socket ids,
    which socket.io makes up and which are never such a name;
  \<^item> payloads are typed as the client builds them; coordinates and widths are only
    stored and copied, never computed with, and are integers here;
  \<^item> \<open>JSON.parse(JSON.stringify(x))\<close> is the identity on values: the model has no
    sharing, every value is a copy. The one place where the server shares an object
    that it later changes is \<open>token-add\<close>: the timeline entry holds the live token, so
    a later \<open>token-move\<close> or \<open>token-relabel\<close> of that token also changes the payload of
    the recorded \<open>token-add\<close>, in the timeline and in the recording saved from it. The
    timeline of the model keeps the value the payload had when it was recorded; the
    offsets, the number of entries, the payloads of all other events and the store are
    as in the server, and no property below is about the payload of a recorded
    \<open>token-add\<close>;
  \<^item> the counters are JavaScript numbers and are natural numbers here (exact below
    \<open>2 ^ 53\<close>);
  \<^item> \<open>Date.now()\<close> and \<open>toLocaleString()\<close> are inputs of each client event (\<open>clock\<close>);
  \<^item> a \<open>TypeError\<close> (a property read on \<open>null\<close>) is the result \<open>Inl TypeError\<close>;
  \<^item> \<open>setTimeout\<close> adds a callback to the table \<open>pending\<close> of the event loop and
    \<open>clearTimeout\<close> removes it; a timer that fires is the action \<open>TimerFire\<close>;
  \<^item> database and file writes and console output are left out.
\<close>

subsection \<open>Data\<close>

type_synonym point = "int \<times> int"

record user =
  u_id :: string
  u_username :: string
  u_color :: string

record stroke =
  st_id :: string
  st_socketId :: string
  st_tool :: string
  st_points :: "point list"
  st_color :: string
  st_width :: int

record token =
  tk_id :: string
  tk_x :: int
  tk_y :: int
  tk_color :: string
  tk_label :: string
  tk_shape :: string
  tk_createdBy :: string

record arrow =
  ar_id :: string
  ar_socketId :: string
  ar_x1 :: int
  ar_y1 :: int
  ar_x2 :: int
  ar_y2 :: int
  ar_color :: string
  ar_width :: int
  ar_style :: string

record draw_data =
  dd_tool :: string
  dd_width :: int
  dd_points :: "point list"

text \<open>What \<open>getRecordingsList\<close> and \<open>getBoardPresetsList\<close> send for each entry.\<close>

record rec_summary =
  rs_id :: nat
  rs_name :: string
  rs_timestamp :: int
  rs_duration :: int
  rs_eventCount :: nat

record preset_summary =
  ps_id :: nat
  ps_name :: string
  ps_timestamp :: int
  ps_strokeCount :: nat
  ps_arrowCount :: nat
  ps_tokenCount :: nat

datatype payload =
    PNone
  | PEmpty
  | PStroke stroke
  | PIds "string list"
  | PToken token
  | PTokenMove string int int
  | PTokenId string
  | PTokenLabel string string
  | PArrow arrow
  | PArrowConfirmed string arrow
  | PBoard "stroke list" "arrow list" "token list"
  | PInit "stroke list" "token list" "arrow list" "user list" user
  | PUser user
  | PUsers "user list"
  | PDrawMove draw_data string string
  | PCursor string string string int int
  | PSocket string
  | PReplayStarted int nat
  | PRecList "rec_summary list"
  | PPresetList "preset_summary list"
  | PPresetSaved nat string

text \<open>
  \<open>socket.emit\<close> reaches the origin only, \<open>socket.broadcast.emit\<close> every connection but
  the origin, \<open>io.emit\<close> every connection.
\<close>

datatype target = Origin string | Others string | All

type_synonym emission = "target \<times> string \<times> payload"

fun receives :: "string \<Rightarrow> emission \<Rightarrow> bool" where
  "receives c (Origin sid, ev, d) = (c = sid)"
| "receives c (Others sid, ev, d) = (c \<noteq> sid)"
| "receives c (All, ev, d) = True"

record snapshot =
  snap_strokes :: "stroke list"
  snap_arrows :: "arrow list"
  snap_tokens :: "(string \<times> token) list"

record entry =
  e_t :: int
  e_event :: string
  e_data :: payload

record recording =
  r_id :: nat
  r_name :: string
  r_timestamp :: int
  r_duration :: int
  r_eventCount :: nat
  r_snapshot :: "snapshot option"
  r_timeline :: "entry list"

record preset =
  p_id :: nat
  p_name :: string
  p_timestamp :: int
  p_strokes :: "stroke list"
  p_arrows :: "arrow list"
  p_tokens :: "(string \<times> token) list"

datatype timer_action =
    EmitReplayInit payload
  | ReEmit string payload
  | FinishReplay

record server =
  users :: "(string \<times> user) list"
  strokes :: "stroke list"
  tokens :: "(string \<times> token) list"
  arrows :: "arrow list"
  nextTokenId :: nat
  nextArrowId :: nat
  rec_active :: bool
  rec_start :: int
  rec_snapshot :: "snapshot option"
  rec_timeline :: "entry list"
  rep_active :: bool
  rep_timers :: "nat list"
  rep_preSnap :: "snapshot option"
  rep_currentRecId :: "nat option"
  recordings :: "recording list"
  nextRecId :: nat
  boardPresets :: "preset list"
  nextPresetId :: nat
  colorIndex :: nat
  pending :: "(nat \<times> int \<times> timer_action) list"
  nextTimer :: nat

record clock =
  now :: int
  localeString :: string

datatype js_error = TypeError

datatype event =
    Join string
  | DrawMove draw_data
  | StrokeDone stroke
  | StrokeRemove "string list"
  | TokenAdd token
  | TokenMove string int int
  | TokenRemove string
  | TokenRelabel string string
  | ArrowDone arrow
  | ArrowRemove "string list"
  | ClearBoard
  | ClearDrawings
  | CursorMove int int
  | RecordingStart
  | RecordingStop
  | ReplayStart nat
  | ReplayStop
  | GetRecordings
  | RenameRecording nat string
  | DeleteRecording nat
  | SavePreset string
  | LoadPreset nat
  | RenamePreset nat string
  | DeletePreset nat
  | GetPresets
  | Disconnect

datatype action = Client string clock event | TimerFire nat

subsection \<open>Numbers in template strings\<close>

definition digits :: string where
  "digits = ''0123456789''"

definition digit_char :: "nat \<Rightarrow> char" where
  "digit_char d = digits ! d"

function numToString :: "nat \<Rightarrow> string" where
  "numToString n =
     (if n < 10 then [digit_char n] else numToString (n div 10) @ [digit_char (n mod 10)])"
  by pat_completeness auto
termination
  by (relation "measure id") auto

declare numToString.simps [simp del]

definition tokenIdOf :: "nat \<Rightarrow> string" where
  "tokenIdOf n = CHR ''t'' # numToString n"

definition arrowIdOf :: "nat \<Rightarrow> string" where
  "arrowIdOf n = ''ar'' @ numToString n"

text \<open>Reading the digits back, used to show that distinct numbers print differently.\<close>

definition digit_val :: "char \<Rightarrow> nat" where
  "digit_val c = length (takeWhile (\<lambda>x. x \<noteq> c) digits)"

definition parseDigits :: "string \<Rightarrow> nat" where
  "parseDigits cs = foldl (\<lambda>a c. 10 * a + digit_val c) 0 cs"

subsection \<open>Array helpers\<close>

fun findIndex :: "('a \<Rightarrow> bool) \<Rightarrow> 'a list \<Rightarrow> nat option" where
  "findIndex P [] = None"
| "findIndex P (x # xs) =
     (if P x then Some 0 else (case findIndex P xs of None \<Rightarrow> None | Some i \<Rightarrow> Some (Suc i)))"

definition splice1 :: "nat \<Rightarrow> 'a list \<Rightarrow> 'a list" where
  "splice1 idx xs = take idx xs @ drop (Suc idx) xs"

definition removeStroke :: "string \<Rightarrow> stroke list \<Rightarrow> stroke list" where
  "removeStroke i ss =
     (case findIndex (\<lambda>s. st_id s = i) ss of None \<Rightarrow> ss | Some idx \<Rightarrow> splice1 idx ss)"

definition removeStrokes :: "string list \<Rightarrow> stroke list \<Rightarrow> stroke list" where
  "removeStrokes ids ss = fold removeStroke ids ss"

definition removeArrow :: "string \<Rightarrow> arrow list \<Rightarrow> arrow list" where
  "removeArrow i as =
     (case findIndex (\<lambda>a. ar_id a = i) as of None \<Rightarrow> as | Some idx \<Rightarrow> splice1 idx as)"

definition removeArrows :: "string list \<Rightarrow> arrow list \<Rightarrow> arrow list" where
  "removeArrows ids as = fold removeArrow ids as"

subsection \<open>Recorder and replay helpers\<close>

definition recordEvent :: "clock \<Rightarrow> string \<Rightarrow> payload \<Rightarrow> server \<Rightarrow> server" where
  "recordEvent clk ev d s =
     (if \<not> rec_active s then s
      else s\<lparr>rec_timeline :=
                rec_timeline s @ [\<lparr>e_t = now clk - rec_start s, e_event = ev, e_data = d\<rparr>]\<rparr>)"

definition snapState :: "server \<Rightarrow> snapshot" where
  "snapState s = \<lparr>snap_strokes = strokes s, snap_arrows = arrows s, snap_tokens = tokens s\<rparr>"

definition setTimeout :: "timer_action \<Rightarrow> int \<Rightarrow> server \<Rightarrow> nat \<times> server" where
  "setTimeout cb delay s =
     (nextTimer s,
      s\<lparr>pending := pending s @ [(nextTimer s, delay, cb)], nextTimer := Suc (nextTimer s)\<rparr>)"

definition clearTimeout :: "nat \<Rightarrow> server \<Rightarrow> server" where
  "clearTimeout tid s = s\<lparr>pending := AList.delete tid (pending s)\<rparr>"

definition boardPayload :: "snapshot \<Rightarrow> payload" where
  "boardPayload p = PBoard (snap_strokes p) (snap_arrows p) (map snd (snap_tokens p))"

definition finishReplay :: "server \<Rightarrow> js_error + (server \<times> emission list)" where
  "finishReplay s0 =
     (let s1 = fold clearTimeout (rep_timers s0) s0;
          s2 = s1\<lparr>rep_timers := [], rep_active := False, rep_currentRecId := None\<rparr>
      in case rep_preSnap s2 of
           None \<Rightarrow> Inl TypeError
         | Some p \<Rightarrow>
             Inr (s2\<lparr>strokes := snap_strokes p, arrows := snap_arrows p,
                      tokens := snap_tokens p\<rparr>,
                  [(All, ''clear-board'', PNone),
                   (All, ''tokens-cleared'', PNone),
                   (All, ''replay-restore'', boardPayload p),
                   (All, ''replay-done'', PNone)]))"

definition recSummary :: "recording \<Rightarrow> rec_summary" where
  "recSummary r =
     \<lparr>rs_id = r_id r, rs_name = r_name r, rs_timestamp = r_timestamp r,
      rs_duration = r_duration r, rs_eventCount = r_eventCount r\<rparr>"

definition getRecordingsList :: "server \<Rightarrow> rec_summary list" where
  "getRecordingsList s = map recSummary (recordings s)"

definition presetSummary :: "preset \<Rightarrow> preset_summary" where
  "presetSummary p =
     \<lparr>ps_id = p_id p, ps_name = p_name p, ps_timestamp = p_timestamp p,
      ps_strokeCount = length (p_strokes p), ps_arrowCount = length (p_arrows p),
      ps_tokenCount = length (p_tokens p)\<rparr>"

definition getBoardPresetsList :: "server \<Rightarrow> preset_summary list" where
  "getBoardPresetsList s = map presetSummary (boardPresets s)"

definition USER_COLORS :: "string list" where
  "USER_COLORS =
     [''#e74c3c'', ''#3498db'', ''#2ecc71'', ''#f39c12'',
      ''#9b59b6'', ''#1abc9c'', ''#e67e22'', ''#e91e63'']"

definition getNextColor :: "server \<Rightarrow> string \<times> server" where
  "getNextColor s =
     (USER_COLORS ! (colorIndex s mod length USER_COLORS), s\<lparr>colorIndex := Suc (colorIndex s)\<rparr>)"

definition userColor :: "server \<Rightarrow> string \<Rightarrow> string" where
  "userColor s sid =
     (case map_of (users s) sid of
        None \<Rightarrow> ''#fff''
      | Some u \<Rightarrow> if u_color u = [] then ''#fff'' else u_color u)"

definition userName :: "server \<Rightarrow> string \<Rightarrow> string" where
  "userName s sid =
     (case map_of (users s) sid of
        None \<Rightarrow> ''?''
      | Some u \<Rightarrow> if u_username u = [] then ''?'' else u_username u)"

subsection \<open>The socket handlers\<close>

definition on_join :: "string \<Rightarrow> string \<Rightarrow> server \<Rightarrow> server \<times> emission list" where
  "on_join sid username s =
     (let s0 = (if map_of (users s) sid \<noteq> None
                then s\<lparr>users := AList.delete sid (users s)\<rparr> else s);
          (color, s1) = getNextColor s0;
          you = \<lparr>u_id = sid, u_username = username, u_color = color\<rparr>;
          s2 = s1\<lparr>users := AList.update sid you (users s1)\<rparr>
      in (s2,
          [(Origin sid, ''init-state'',
              PInit (strokes s2) (map snd (tokens s2)) (arrows s2) (map snd (users s2)) you),
           (Others sid, ''user-joined'', PUser you),
           (Others sid, ''user-list'', PUsers (map snd (users s2)))]))"

definition on_draw_move :: "string \<Rightarrow> draw_data \<Rightarrow> server \<Rightarrow> server \<times> emission list" where
  "on_draw_move sid d s = (s, [(Others sid, ''draw-move'', PDrawMove d sid (userColor s sid))])"

definition on_stroke_done ::
  "string \<Rightarrow> clock \<Rightarrow> stroke \<Rightarrow> server \<Rightarrow> server \<times> emission list" where
  "on_stroke_done sid clk stroke s =
     (let saved = stroke\<lparr>st_socketId := sid\<rparr>;
          s1 = s\<lparr>strokes := strokes s @ [saved]\<rparr>
      in (recordEvent clk ''stroke-done'' (PStroke saved) s1,
          [(Others sid, ''stroke-done'', PStroke saved)]))"

definition on_stroke_remove ::
  "clock \<Rightarrow> string list \<Rightarrow> server \<Rightarrow> server \<times> emission list" where
  "on_stroke_remove clk ids s =
     (let s1 = s\<lparr>strokes := removeStrokes ids (strokes s)\<rparr>
      in (recordEvent clk ''stroke-remove'' (PIds ids) s1,
          [(All, ''stroke-remove'', PIds ids)]))"

definition on_token_add :: "clock \<Rightarrow> token \<Rightarrow> server \<Rightarrow> server \<times> emission list" where
  "on_token_add clk token s =
     (let i = tokenIdOf (nextTokenId s);
          s1 = s\<lparr>nextTokenId := Suc (nextTokenId s)\<rparr>;
          newToken = token\<lparr>tk_id := i\<rparr>;
          s2 = s1\<lparr>tokens := AList.update i newToken (tokens s1)\<rparr>
      in (recordEvent clk ''token-add'' (PToken newToken) s2,
          [(All, ''token-add'', PToken newToken)]))"

text \<open>
  \<open>state.tokens\<close> is a plain object (\<open>{}\<close>, or what \<open>JSON.parse\<close> returns), so
  \<open>state.tokens[id]\<close> is the token stored under \<open>id\<close> when \<open>id\<close> is an own key, and otherwise
  what \<open>Object.prototype\<close> has under that name: a function for eleven names, the prototype
  itself for \<open>__proto__\<close>, and \<open>undefined\<close> for every other name. The guard
  \<open>if (state.tokens[id])\<close> therefore holds for the own keys and for these twelve names. In
  the second case the assignments \<open>state.tokens[id].x = x\<close> write to the inherited function or
  prototype, which is no part of the board: the tokens stay as they are. (A property
  written to the prototype is from then on inherited by every object; the handlers read
  own properties only, of payloads that have all their fields, so this is left out.)
\<close>

definition objectPrototype :: "string list" where
  "objectPrototype =
     [''constructor'', ''__defineGetter__'', ''__defineSetter__'', ''hasOwnProperty'',
      ''__lookupGetter__'', ''__lookupSetter__'', ''isPrototypeOf'', ''propertyIsEnumerable'',
      ''toString'', ''valueOf'', ''__proto__'', ''toLocaleString'']"

definition on_token_move ::
  "string \<Rightarrow> clock \<Rightarrow> string \<Rightarrow> int \<Rightarrow> int \<Rightarrow> server \<Rightarrow> server \<times> emission list" where
  "on_token_move sid clk i x y s =
     (if map_of (tokens s) i \<noteq> None then
        (let s1 = s\<lparr>tokens := AList.map_entry i (\<lambda>t. t\<lparr>tk_x := x\<rparr>) (tokens s)\<rparr>;
             s2 = s1\<lparr>tokens := AList.map_entry i (\<lambda>t. t\<lparr>tk_y := y\<rparr>) (tokens s1)\<rparr>
         in (recordEvent clk ''token-move'' (PTokenMove i x y) s2,
             [(Others sid, ''token-move'', PTokenMove i x y)]))
      else if i \<in> set objectPrototype then
        (recordEvent clk ''token-move'' (PTokenMove i x y) s,
         [(Others sid, ''token-move'', PTokenMove i x y)])
      else (s, []))"

definition on_token_remove :: "clock \<Rightarrow> string \<Rightarrow> server \<Rightarrow> server \<times> emission list" where
  "on_token_remove clk i s =
     (let s1 = s\<lparr>tokens := AList.delete i (tokens s)\<rparr>
      in (recordEvent clk ''token-remove'' (PTokenId i) s1,
          [(All, ''token-remove'', PTokenId i)]))"

definition on_token_relabel ::
  "clock \<Rightarrow> string \<Rightarrow> string \<Rightarrow> server \<Rightarrow> server \<times> emission list" where
  "on_token_relabel clk i label s =
     (let s1 = (if map_of (tokens s) i \<noteq> None
                then s\<lparr>tokens := AList.map_entry i (\<lambda>t. t\<lparr>tk_label := label\<rparr>) (tokens s)\<rparr>
                else if i \<in> set objectPrototype then s
                else s)
      in (recordEvent clk ''token-relabel'' (PTokenLabel i label) s1,
          [(All, ''token-relabel'', PTokenLabel i label)]))"

definition on_arrow_done ::
  "string \<Rightarrow> clock \<Rightarrow> arrow \<Rightarrow> server \<Rightarrow> server \<times> emission list" where
  "on_arrow_done sid clk arrow s =
     (let saved = arrow\<lparr>ar_id := arrowIdOf (nextArrowId s), ar_socketId := sid\<rparr>;
          s1 = s\<lparr>nextArrowId := Suc (nextArrowId s)\<rparr>;
          s2 = s1\<lparr>arrows := arrows s1 @ [saved]\<rparr>
      in (recordEvent clk ''arrow-done'' (PArrow saved) s2,
          [(Others sid, ''arrow-done'', PArrow saved),
           (Origin sid, ''arrow-confirmed'', PArrowConfirmed (ar_id arrow) saved)]))"

definition on_arrow_remove ::
  "clock \<Rightarrow> string list \<Rightarrow> server \<Rightarrow> server \<times> emission list" where
  "on_arrow_remove clk ids s =
     (let s1 = s\<lparr>arrows := removeArrows ids (arrows s)\<rparr>
      in (recordEvent clk ''arrow-remove'' (PIds ids) s1,
          [(All, ''arrow-remove'', PIds ids)]))"

definition on_clear_board :: "clock \<Rightarrow> server \<Rightarrow> server \<times> emission list" where
  "on_clear_board clk s =
     (let s1 = s\<lparr>strokes := [], arrows := [], tokens := []\<rparr>
      in (recordEvent clk ''tokens-cleared'' PEmpty (recordEvent clk ''clear-board'' PEmpty s1),
          [(All, ''clear-board'', PNone), (All, ''tokens-cleared'', PNone)]))"

definition on_clear_drawings :: "clock \<Rightarrow> server \<Rightarrow> server \<times> emission list" where
  "on_clear_drawings clk s =
     (let s1 = s\<lparr>strokes := [], arrows := []\<rparr>
      in (recordEvent clk ''clear-board'' PEmpty s1, [(All, ''clear-board'', PNone)]))"

definition on_cursor_move :: "string \<Rightarrow> int \<Rightarrow> int \<Rightarrow> server \<Rightarrow> server \<times> emission list" where
  "on_cursor_move sid x y s =
     (s, [(Others sid, ''cursor-move'', PCursor sid (userName s sid) (userColor s sid) x y)])"

definition on_recording_start :: "clock \<Rightarrow> server \<Rightarrow> server \<times> emission list" where
  "on_recording_start clk s =
     (if rec_active s \<or> rep_active s then (s, [])
      else (s\<lparr>rec_active := True, rec_start := now clk, rec_timeline := [],
               rec_snapshot := Some (snapState s)\<rparr>,
            [(All, ''recording-started'', PNone)]))"

definition on_recording_stop :: "clock \<Rightarrow> server \<Rightarrow> server \<times> emission list" where
  "on_recording_stop clk s =
     (if \<not> rec_active s then (s, [])
      else
        (let s1 = s\<lparr>rec_active := False\<rparr>;
             duration = (if length (rec_timeline s1) \<noteq> 0
                         then e_t (rec_timeline s1 ! (length (rec_timeline s1) - 1)) else 0);
             savedRec = \<lparr>r_id = nextRecId s1, r_name = ''Recording '' @ localeString clk,
                         r_timestamp = now clk, r_duration = duration,
                         r_eventCount = length (rec_timeline s1),
                         r_snapshot = rec_snapshot s1, r_timeline = rec_timeline s1\<rparr>;
             s2 = s1\<lparr>nextRecId := Suc (nextRecId s1)\<rparr>;
             s3 = s2\<lparr>recordings := recordings s2 @ [savedRec]\<rparr>
         in (s3, [(All, ''recording-saved'', PRecList (getRecordingsList s3))])))"

fun schedule_timeline :: "entry list \<Rightarrow> server \<Rightarrow> server" where
  "schedule_timeline [] s = s"
| "schedule_timeline (e # es) s =
     (let (tid, s1) = setTimeout (ReEmit (e_event e) (e_data e)) (e_t e + 350) s
      in schedule_timeline es (s1\<lparr>rep_timers := rep_timers s1 @ [tid]\<rparr>))"

definition on_replay_start :: "nat \<Rightarrow> server \<Rightarrow> js_error + (server \<times> emission list)" where
  "on_replay_start recId s =
     (if rep_active s then Inr (s, [])
      else case find (\<lambda>r. r_id r = recId) (recordings s) of
        None \<Rightarrow> Inr (s, [])
      | Some recording \<Rightarrow>
          (case r_snapshot recording of
             None \<Rightarrow> Inl TypeError
           | Some snap \<Rightarrow>
               (let s1 = s\<lparr>rep_active := True, rep_currentRecId := Some recId,
                           rep_preSnap := Some (snapState s)\<rparr>;
                    s2 = s1\<lparr>strokes := snap_strokes snap, arrows := snap_arrows snap,
                            tokens := snap_tokens snap\<rparr>;
                    (initTid, s3) = setTimeout (EmitReplayInit (boardPayload snap)) 150 s2;
                    s4 = schedule_timeline (r_timeline recording) (s3\<lparr>rep_timers := []\<rparr>);
                    (endTid, s5) = setTimeout FinishReplay (r_duration recording + 900) s4
                in Inr (s5\<lparr>rep_timers := rep_timers s5 @ [endTid]\<rparr>,
                        [(All, ''clear-board'', PNone),
                         (All, ''tokens-cleared'', PNone),
                         (All, ''replay-started'',
                            PReplayStarted (r_duration recording) recId)]))))"

definition on_replay_stop :: "server \<Rightarrow> js_error + (server \<times> emission list)" where
  "on_replay_stop s = (if rep_active s then finishReplay s else Inr (s, []))"

definition on_get_recordings :: "string \<Rightarrow> server \<Rightarrow> server \<times> emission list" where
  "on_get_recordings sid s = (s, [(Origin sid, ''recordings-list'', PRecList (getRecordingsList s))])"

definition on_rename_recording :: "nat \<Rightarrow> string \<Rightarrow> server \<Rightarrow> server \<times> emission list" where
  "on_rename_recording recId newName s =
     (case findIndex (\<lambda>r. r_id r = recId) (recordings s) of
        None \<Rightarrow> (s, [])
      | Some idx \<Rightarrow>
          (let s1 = s\<lparr>recordings :=
                        (recordings s)[idx := (recordings s ! idx)\<lparr>r_name := newName\<rparr>]\<rparr>
           in (s1, [(All, ''recordings-list'', PRecList (getRecordingsList s1))])))"

definition on_delete_recording :: "nat \<Rightarrow> server \<Rightarrow> server \<times> emission list" where
  "on_delete_recording recId s =
     (case findIndex (\<lambda>r. r_id r = recId) (recordings s) of
        None \<Rightarrow> (s, [])
      | Some idx \<Rightarrow>
          (let s1 = s\<lparr>recordings := splice1 idx (recordings s)\<rparr>
           in (s1, [(All, ''recordings-list'', PRecList (getRecordingsList s1))])))"

definition on_save_preset ::
  "string \<Rightarrow> clock \<Rightarrow> string \<Rightarrow> server \<Rightarrow> server \<times> emission list" where
  "on_save_preset sid clk name s =
     (let preset = \<lparr>p_id = nextPresetId s,
                    p_name = (if name \<noteq> [] then name else ''Preset '' @ localeString clk),
                    p_timestamp = now clk, p_strokes = strokes s, p_arrows = arrows s,
                    p_tokens = tokens s\<rparr>;
          s1 = s\<lparr>nextPresetId := Suc (nextPresetId s)\<rparr>;
          s2 = s1\<lparr>boardPresets := boardPresets s1 @ [preset]\<rparr>
      in (s2, [(All, ''presets-list'', PPresetList (getBoardPresetsList s2)),
               (Origin sid, ''preset-saved'', PPresetSaved (p_id preset) (p_name preset))]))"

definition on_load_preset :: "nat \<Rightarrow> server \<Rightarrow> server \<times> emission list" where
  "on_load_preset presetId s =
     (case find (\<lambda>p. p_id p = presetId) (boardPresets s) of
        None \<Rightarrow> (s, [])
      | Some preset \<Rightarrow>
          (s\<lparr>strokes := p_strokes preset, arrows := p_arrows preset, tokens := p_tokens preset\<rparr>,
           [(All, ''clear-board'', PNone),
            (All, ''tokens-cleared'', PNone),
            (All, ''preset-loaded'',
               PBoard (p_strokes preset) (p_arrows preset) (map snd (p_tokens preset)))]))"

definition on_rename_preset :: "nat \<Rightarrow> string \<Rightarrow> server \<Rightarrow> server \<times> emission list" where
  "on_rename_preset presetId newName s =
     (case findIndex (\<lambda>p. p_id p = presetId) (boardPresets s) of
        None \<Rightarrow> (s, [])
      | Some idx \<Rightarrow>
          (let s1 = s\<lparr>boardPresets :=
                        (boardPresets s)[idx := (boardPresets s ! idx)\<lparr>p_name := newName\<rparr>]\<rparr>
           in (s1, [(All, ''presets-list'', PPresetList (getBoardPresetsList s1))])))"

definition on_delete_preset :: "nat \<Rightarrow> server \<Rightarrow> server \<times> emission list" where
  "on_delete_preset presetId s =
     (case findIndex (\<lambda>p. p_id p = presetId) (boardPresets s) of
        None \<Rightarrow> (s, [])
      | Some idx \<Rightarrow>
          (let s1 = s\<lparr>boardPresets := splice1 idx (boardPresets s)\<rparr>
           in (s1, [(All, ''presets-list'', PPresetList (getBoardPresetsList s1))])))"

definition on_get_presets :: "string \<Rightarrow> server \<Rightarrow> server \<times> emission list" where
  "on_get_presets sid s =
     (s, [(Origin sid, ''presets-list'', PPresetList (getBoardPresetsList s))])"

definition on_disconnect :: "string \<Rightarrow> server \<Rightarrow> server \<times> emission list" where
  "on_disconnect sid s =
     (let departedUser = map_of (users s) sid;
          s1 = s\<lparr>users := AList.delete sid (users s)\<rparr>
      in (s1,
          [(Others sid, ''cursor-remove'', PSocket sid)] @
          (case departedUser of None \<Rightarrow> [] | Some u \<Rightarrow> [(Others sid, ''user-left'', PUser u)]) @
          [(Others sid, ''user-list'', PUsers (map snd (users s1)))]))"

subsection \<open>One turn of the event loop\<close>

fun handle :: "string \<Rightarrow> clock \<Rightarrow> event \<Rightarrow> server \<Rightarrow> js_error + (server \<times> emission list)" where
  "handle sid clk (Join username) s = Inr (on_join sid username s)"
| "handle sid clk (DrawMove d) s = Inr (on_draw_move sid d s)"
| "handle sid clk (StrokeDone stroke) s = Inr (on_stroke_done sid clk stroke s)"
| "handle sid clk (StrokeRemove ids) s = Inr (on_stroke_remove clk ids s)"
| "handle sid clk (TokenAdd token) s = Inr (on_token_add clk token s)"
| "handle sid clk (TokenMove i x y) s = Inr (on_token_move sid clk i x y s)"
| "handle sid clk (TokenRemove i) s = Inr (on_token_remove clk i s)"
| "handle sid clk (TokenRelabel i label) s = Inr (on_token_relabel clk i label s)"
| "handle sid clk (ArrowDone arrow) s = Inr (on_arrow_done sid clk arrow s)"
| "handle sid clk (ArrowRemove ids) s = Inr (on_arrow_remove clk ids s)"
| "handle sid clk ClearBoard s = Inr (on_clear_board clk s)"
| "handle sid clk ClearDrawings s = Inr (on_clear_drawings clk s)"
| "handle sid clk (CursorMove x y) s = Inr (on_cursor_move sid x y s)"
| "handle sid clk RecordingStart s = Inr (on_recording_start clk s)"
| "handle sid clk RecordingStop s = Inr (on_recording_stop clk s)"
| "handle sid clk (ReplayStart recId) s = on_replay_start recId s"
| "handle sid clk ReplayStop s = on_replay_stop s"
| "handle sid clk GetRecordings s = Inr (on_get_recordings sid s)"
| "handle sid clk (RenameRecording recId newName) s = Inr (on_rename_recording recId newName s)"
| "handle sid clk (DeleteRecording recId) s = Inr (on_delete_recording recId s)"
| "handle sid clk (SavePreset name) s = Inr (on_save_preset sid clk name s)"
| "handle sid clk (LoadPreset presetId) s = Inr (on_load_preset presetId s)"
| "handle sid clk (RenamePreset presetId newName) s = Inr (on_rename_preset presetId newName s)"
| "handle sid clk (DeletePreset presetId) s = Inr (on_delete_preset presetId s)"
| "handle sid clk GetPresets s = Inr (on_get_presets sid s)"
| "handle sid clk Disconnect s = Inr (on_disconnect sid s)"

text \<open>A timer that fires leaves the table and runs its callback; a cleared timer never fires.\<close>

definition fire :: "nat \<Rightarrow> server \<Rightarrow> js_error + (server \<times> emission list)" where
  "fire tid s =
     (case map_of (pending s) tid of
        None \<Rightarrow> Inr (s, [])
      | Some (delay, cb) \<Rightarrow>
          (let s1 = s\<lparr>pending := AList.delete tid (pending s)\<rparr>
           in case cb of
                EmitReplayInit d \<Rightarrow> Inr (s1, [(All, ''replay-init'', d)])
              | ReEmit ev d \<Rightarrow> Inr (s1, [(All, ev, d)])
              | FinishReplay \<Rightarrow> finishReplay s1))"

fun step :: "action \<Rightarrow> server \<Rightarrow> js_error + (server \<times> emission list)" where
  "step (Client sid clk e) s = handle sid clk e s"
| "step (TimerFire tid) s = fire tid s"

fun run :: "server \<Rightarrow> action list \<Rightarrow> js_error + (server \<times> emission list)" where
  "run s [] = Inr (s, [])"
| "run s (a # as) =
     (case step a s of
        Inl err \<Rightarrow> Inl err
      | Inr (s1, out1) \<Rightarrow>
          (case run s1 as of
             Inl err \<Rightarrow> Inl err
           | Inr (s2, out2) \<Rightarrow> Inr (s2, out1 @ out2)))"

text \<open>
  The state after start-up: the board is empty, both id counters are 1, and the presets
  and recordings are whatever the persistence layer loaded.
\<close>

definition initial :: "preset list \<Rightarrow> nat \<Rightarrow> recording list \<Rightarrow> nat \<Rightarrow> server" where
  "initial presets nextPreset recs nextRec =
     \<lparr>users = [], strokes = [], tokens = [], arrows = [],
      nextTokenId = 1, nextArrowId = 1,
      rec_active = False, rec_start = 0, rec_snapshot = None, rec_timeline = [],
      rep_active = False, rep_timers = [], rep_preSnap = None, rep_currentRecId = None,
      recordings = recs, nextRecId = nextRec,
      boardPresets = presets, nextPresetId = nextPreset,
      colorIndex = 0, pending = [], nextTimer = 0\<rparr>"

subsection \<open>Notions used to state the properties of a replay\<close>

text \<open>
  \<open>replay_alive s acts\<close> runs the actions from \<open>s\<close> and gives the final state when every
  action returned normally and left the replay active.
\<close>

fun replay_alive :: "server \<Rightarrow> action list \<Rightarrow> server option" where
  "replay_alive s [] = Some s"
| "replay_alive s (a # as) =
     (case step a s of
        Inl err \<Rightarrow> None
      | Inr (s1, out) \<Rightarrow> if rep_active s1 then replay_alive s1 as else None)"

text \<open>
  The timers of a replay: the delayed \<open>replay-init\<close> message, which the server does not
  keep in \<open>rep.timers\<close>, and the re-emissions and the end of the replay, which it does.
  In a \<open>tracked\<close> state every pending re-emission or end timer belongs to the replay in
  flight and is listed in \<open>rep.timers\<close>.
\<close>

fun is_replay_init :: "timer_action \<Rightarrow> bool" where
  "is_replay_init (EmitReplayInit d) = True"
| "is_replay_init (ReEmit ev d) = False"
| "is_replay_init FinishReplay = False"

definition tracked :: "server \<Rightarrow> bool" where
  "tracked s =
     list_all (\<lambda>(tid, delay, cb). is_replay_init cb \<or> (rep_active s \<and> tid \<in> set (rep_timers s)))
       (pending s)"

text \<open>The last timer of \<open>rep.timers\<close> is pending and its callback is \<open>finishReplay\<close>.\<close>

definition end_timer_pending :: "server \<Rightarrow> bool" where
  "end_timer_pending s =
     (rep_timers s \<noteq> [] \<and>
      (case map_of (pending s) (last (rep_timers s)) of
         Some (delay, FinishReplay) \<Rightarrow> True
       | _ \<Rightarrow> False))"

text \<open>The table entries that \<open>schedule_timeline\<close> adds, the first with timer id \<open>n\<close>.\<close>

fun timeline_timers :: "nat \<Rightarrow> entry list \<Rightarrow> (nat \<times> int \<times> timer_action) list" where
  "timeline_timers n [] = []"
| "timeline_timers n (e # es) =
     (n, e_t e + 350, ReEmit (e_event e) (e_data e)) # timeline_timers (Suc n) es"

text \<open>What \<open>finishReplay\<close> emits when it restores the snapshot \<open>p\<close>.\<close>

definition replay_end_emissions :: "snapshot \<Rightarrow> emission list" where
  "replay_end_emissions p =
     [(All, ''clear-board'', PNone), (All, ''tokens-cleared'', PNone),
      (All, ''replay-restore'', boardPayload p), (All, ''replay-done'', PNone)]"

text \<open>
  In a state with \<open>fresh_timers\<close> every pending timer has an id below the next id that
  \<open>setTimeout\<close> hands out. \<open>reemissions es\<close> is what the timers of the timeline \<open>es\<close>
  emit when they fire in the order of the timeline.
\<close>

definition fresh_timers :: "server \<Rightarrow> bool" where
  "fresh_timers s = list_all (\<lambda>(tid, delay, cb). tid < nextTimer s) (pending s)"


text \<open>
  Applying recorded stroke events directly to a list of strokes, as the handlers of
  \<open>stroke-done\<close> and \<open>stroke-remove\<close> apply them to \<open>state.strokes\<close>: this is the
  reference that the replay is compared with.
\<close>

definition apply_entry :: "entry \<Rightarrow> stroke list \<Rightarrow> stroke list" where
  "apply_entry e ss =
     (if e_event e = ''stroke-done''
      then (case e_data e of PStroke st \<Rightarrow> ss @ [st] | _ \<Rightarrow> ss)
      else if e_event e = ''stroke-remove''
      then (case e_data e of PIds ids \<Rightarrow> removeStrokes ids ss | _ \<Rightarrow> ss)
      else ss)"

definition apply_timeline :: "entry list \<Rightarrow> stroke list \<Rightarrow> stroke list" where
  "apply_timeline es ss = fold apply_entry es ss"

fun is_stroke_event :: "event \<Rightarrow> bool" where
  "is_stroke_event (StrokeDone stroke) = True"
| "is_stroke_event (StrokeRemove ids) = True"
| "is_stroke_event e = False"

definition client_actions :: "(string \<times> clock \<times> event) list \<Rightarrow> action list" where
  "client_actions evs = map (\<lambda>(sid, clk, e). Client sid clk e) evs"

subsection \<open>Notions used to state the freshness of token ids\<close>

text \<open>
  \<open>issued n k\<close>: the id \<open>k\<close> is what the token counter printed at some value below \<open>n\<close>.
  In a state that is \<open>tokens_ok\<close> the keys of the tokens are distinct, every token
  carries its key as its id, and every id was issued by the counter of this process.
  \<open>added_tokens n adds\<close> lists the tokens that a sequence of \<open>token-add\<close> events creates
  when the counter starts at \<open>n\<close>.
\<close>

definition issued :: "nat \<Rightarrow> string \<Rightarrow> bool" where
  "issued n k = (k \<in> set (map tokenIdOf [0 ..< n]))"

definition tokens_ok :: "server \<Rightarrow> bool" where
  "tokens_ok s =
     (distinct (map fst (tokens s)) \<and>
      list_all (\<lambda>(k, t). tk_id t = k \<and> issued (nextTokenId s) k) (tokens s))"

definition token_adds :: "(string \<times> clock \<times> token) list \<Rightarrow> action list" where
  "token_adds adds = map (\<lambda>(sid, clk, token). Client sid clk (TokenAdd token)) adds"

fun added_tokens :: "nat \<Rightarrow> (string \<times> clock \<times> token) list \<Rightarrow> (string \<times> token) list" where
  "added_tokens n [] = []"
| "added_tokens n ((sid, clk, token) # adds) =
     (tokenIdOf n, token\<lparr>tk_id := tokenIdOf n\<rparr>) # added_tokens (Suc n) adds"

text \<open>
  The same for every place a token can come back from (the store, the presets, the
  snapshots of the recordings, of the recorder and of the replay engine), with the
  condition on the ids as a parameter: in an \<open>all_keyed\<close> state the keys are distinct and
  every token carries its key as its id; in an \<open>all_tokens_ok\<close> state every id was also
  issued by the counter of this process.
\<close>

definition toks_wf :: "(string \<Rightarrow> bool) \<Rightarrow> (string \<times> token) list \<Rightarrow> bool" where
  "toks_wf P toks =
     (distinct (map fst toks) \<and> list_all (\<lambda>(k, t). tk_id t = k \<and> P k) toks)"

definition snap_wf :: "(string \<Rightarrow> bool) \<Rightarrow> snapshot option \<Rightarrow> bool" where
  "snap_wf P so = (case so of None \<Rightarrow> True | Some p \<Rightarrow> toks_wf P (snap_tokens p))"

definition all_wf :: "(string \<Rightarrow> bool) \<Rightarrow> server \<Rightarrow> bool" where
  "all_wf P s =
     (toks_wf P (tokens s) \<and>
      list_all (\<lambda>p. toks_wf P (p_tokens p)) (boardPresets s) \<and>
      list_all (\<lambda>r. snap_wf P (r_snapshot r)) (recordings s) \<and>
      snap_wf P (rec_snapshot s) \<and>
      snap_wf P (rep_preSnap s))"

definition all_keyed :: "server \<Rightarrow> bool" where
  "all_keyed s = all_wf (\<lambda>k. True) s"

definition all_tokens_ok :: "server \<Rightarrow> bool" where
  "all_tokens_ok s = all_wf (issued (nextTokenId s)) s"

subsection \<open>Example values\<close>

definition clockAt :: "int \<Rightarrow> clock" where
  "clockAt ms = \<lparr>now = ms, localeString = ''1/1/2026, 12:00:00 PM''\<rparr>"

definition strokeA :: stroke where
  "strokeA = \<lparr>st_id = ''a-1'', st_socketId = ''a'', st_tool = ''draw'',
              st_points = [(0, 0), (10, 10)], st_color = ''#e74c3c'', st_width = 3\<rparr>"

definition strokeB :: stroke where
  "strokeB = \<lparr>st_id = ''b-1'', st_socketId = ''b'', st_tool = ''draw'',
              st_points = [(5, 5), (6, 8), (9, 9)], st_color = ''#3498db'', st_width = 2\<rparr>"


definition tokenP :: token where
  "tokenP = \<lparr>tk_id = [], tk_x = 340, tk_y = 220, tk_color = ''#e74c3c'', tk_label = ''1'',
             tk_shape = ''circle'', tk_createdBy = ''a''\<rparr>"

definition arrowP :: arrow where
  "arrowP = \<lparr>ar_id = ''a-a1'', ar_socketId = ''a'', ar_x1 = 0, ar_y1 = 0, ar_x2 = 50, ar_y2 = 20,
             ar_color = ''#e74c3c'', ar_width = 3, ar_style = ''solid''\<rparr>"

definition emptyServer :: server where
  "emptyServer = initial [] 1 [] 1"

definition recordingServer :: server where
  "recordingServer = fst (on_recording_start (clockAt 1000) emptyServer)"

definition boardServer :: server where
  "boardServer =
     fst (on_arrow_done ''a'' (clockAt 30) arrowP
       (fst (on_token_add (clockAt 20) tokenP
         (fst (on_stroke_done ''b'' (clockAt 15) strokeB
           (fst (on_stroke_done ''a'' (clockAt 10) strokeA emptyServer)))))))"

definition recA :: recording where
  "recA =
     \<lparr>r_id = 1, r_name = ''Recording 1/1/2026, 12:00:00 PM'', r_timestamp = 1900,
      r_duration = 500, r_eventCount = 2,
      r_snapshot = Some \<lparr>snap_strokes = [], snap_arrows = [], snap_tokens = []\<rparr>,
      r_timeline =
        [\<lparr>e_t = 0, e_event = ''stroke-done'', e_data = PStroke strokeA\<rparr>,
         \<lparr>e_t = 500, e_event = ''stroke-done'', e_data = PStroke strokeB\<rparr>]\<rparr>"

text \<open>A server that starts with the recording \<open>recA\<close> loaded from the persistence layer.\<close>

definition loadedServer :: server where
  "loadedServer = initial [] 1 [recA] 2"

text \<open>
  A replay of \<open>recA\<close> on a board that holds one stroke: the state before the replay, the
  state after \<open>replay-start\<close>, and the state after the first re-emission and a stroke
  that a client draws during the replay.
\<close>

definition drawnServer :: server where
  "drawnServer = fst (on_stroke_done ''a'' (clockAt 10) strokeA loadedServer)"

definition replayingServer :: server where
  "replayingServer = fst (projr (on_replay_start 1 drawnServer))"

definition midReplayServer :: server where
  "midReplayServer =
     the (replay_alive replayingServer
            [TimerFire 1, Client ''b'' (clockAt 400) (StrokeDone strokeB)])"

definition twoAdds :: "(string \<times> clock \<times> token) list" where
  "twoAdds = [(''a'', clockAt 10, tokenP), (''b'', clockAt 10, tokenP\<lparr>tk_createdBy := ''b''\<rparr>)]"




definition twoTokensServer :: server where
  "twoTokensServer =
     emptyServer\<lparr>nextTokenId := 3,
       tokens := [(''t1'', tokenP\<lparr>tk_id := ''t1''\<rparr>),
                  (''t2'', tokenP\<lparr>tk_id := ''t2'', tk_createdBy := ''b''\<rparr>)]\<rparr>"

text \<open>
  A second process: the first one added the token \<open>t1\<close> and saved the board as preset 1;
  the second one starts with that preset, its preset counter restored past the saved id
  and its token counter at 1. \<open>presetLoadedServer\<close> is its state after \<open>load-preset\<close>.
\<close>

definition tokenQ :: token where
  "tokenQ = \<lparr>tk_id = [], tk_x = 80, tk_y = 60, tk_color = ''#3498db'', tk_label = ''2'',
             tk_shape = ''square'', tk_createdBy = ''b''\<rparr>"

definition savedPreset :: preset where
  "savedPreset =
     \<lparr>p_id = 1, p_name = ''Kickoff'', p_timestamp = 30, p_strokes = [], p_arrows = [],
      p_tokens = [(''t1'', tokenP\<lparr>tk_id := ''t1''\<rparr>)]\<rparr>"

definition restartedServer :: server where
  "restartedServer = initial [savedPreset] 2 [] 1"

definition presetLoadedServer :: server where
  "presetLoadedServer = restartedServer\<lparr>tokens := [(''t1'', tokenP\<lparr>tk_id := ''t1''\<rparr>)]\<rparr>"

section \<open>Properties\<close>

subsection \<open>What \<open>recordEvent\<close> touches\<close>

lemma recordEvent_board [simp]:
  "strokes (recordEvent clk ev d s) = strokes s"
  "arrows (recordEvent clk ev d s) = arrows s"
  "tokens (recordEvent clk ev d s) = tokens s"
  "users (recordEvent clk ev d s) = users s"
  by (simp_all add: recordEvent_def)

lemma recordEvent_counters [simp]:
  "nextTokenId (recordEvent clk ev d s) = nextTokenId s"
  "nextArrowId (recordEvent clk ev d s) = nextArrowId s"
  "nextRecId (recordEvent clk ev d s) = nextRecId s"
  "nextPresetId (recordEvent clk ev d s) = nextPresetId s"
  "colorIndex (recordEvent clk ev d s) = colorIndex s"
  "nextTimer (recordEvent clk ev d s) = nextTimer s"
  by (simp_all add: recordEvent_def)

lemma recordEvent_rec [simp]:
  "rec_active (recordEvent clk ev d s) = rec_active s"
  "rec_start (recordEvent clk ev d s) = rec_start s"
  "rec_snapshot (recordEvent clk ev d s) = rec_snapshot s"
  by (simp_all add: recordEvent_def)

lemma recordEvent_rep [simp]:
  "rep_active (recordEvent clk ev d s) = rep_active s"
  "rep_timers (recordEvent clk ev d s) = rep_timers s"
  "rep_preSnap (recordEvent clk ev d s) = rep_preSnap s"
  "rep_currentRecId (recordEvent clk ev d s) = rep_currentRecId s"
  "recordings (recordEvent clk ev d s) = recordings s"
  "boardPresets (recordEvent clk ev d s) = boardPresets s"
  "pending (recordEvent clk ev d s) = pending s"
  by (simp_all add: recordEvent_def)

lemma recordEvent_timeline:
  "rec_timeline (recordEvent clk ev d s) =
     (if rec_active s
      then rec_timeline s @ [\<lparr>e_t = now clk - rec_start s, e_event = ev, e_data = d\<rparr>]
      else rec_timeline s)"
  by (simp add: recordEvent_def)

lemma snapState_recordEvent [simp]: "snapState (recordEvent clk ev d s) = snapState s"
  by (simp add: snapState_def)

subsection \<open>Clearing the board\<close>

text \<open>
  Claim C5. In every state, after \<open>clear-board\<close> the strokes, the arrows and the tokens
  are all empty; after \<open>clear-drawings\<close> the strokes and the arrows are empty and the
  tokens are exactly what they were before the event.
\<close>

theorem clear_board_and_clear_drawings:
  "(\<exists>s' out. handle sid clk ClearBoard s = Inr (s', out) \<and>
       strokes s' = [] \<and> arrows s' = [] \<and> tokens s' = []) \<and>
   (\<exists>s' out. handle sid clk ClearDrawings s = Inr (s', out) \<and>
       strokes s' = [] \<and> arrows s' = [] \<and> tokens s' = tokens s)"
  by (simp add: on_clear_board_def on_clear_drawings_def)

subsection \<open>Printing the counters\<close>

lemma digit_roundtrip_all: "list_all (\<lambda>d. digit_val (digit_char d) = d) [0..<10]"
  by code_simp

lemma digit_val_digit_char: "d < 10 \<Longrightarrow> digit_val (digit_char d) = d"
  using digit_roundtrip_all by (simp add: list_all_iff)

lemma parseDigits_snoc: "parseDigits (cs @ [c]) = 10 * parseDigits cs + digit_val c"
  by (simp add: parseDigits_def)

lemma parseDigits_numToString: "parseDigits (numToString n) = n"
proof (induction n rule: numToString.induct)
  case (1 n)
  show ?case
  proof (cases "n < 10")
    case True
    then show ?thesis
      by (subst numToString.simps) (simp add: parseDigits_def digit_val_digit_char)
  next
    case False
    with 1 have "parseDigits (numToString (n div 10)) = n div 10" by simp
    with False show ?thesis
      by (subst numToString.simps) (simp add: parseDigits_snoc digit_val_digit_char)
  qed
qed

lemma numToString_inj: "(numToString m = numToString n) = (m = n)"
  by (metis parseDigits_numToString)

lemma tokenIdOf_inj: "(tokenIdOf m = tokenIdOf n) = (m = n)"
  by (simp add: tokenIdOf_def numToString_inj)

lemma arrowIdOf_inj: "(arrowIdOf m = arrowIdOf n) = (m = n)"
  by (simp add: arrowIdOf_def numToString_inj)

lemma tokenIdOf_12: "tokenIdOf 12 = ''t12''"
  by (simp add: tokenIdOf_def numToString.simps digit_char_def digits_def)

subsection \<open>Arrows: one message for the others, one for the origin\<close>

text \<open>
  Claim C8. Every \<open>arrow-done\<close> event stores the arrow under an id made from the arrow
  counter, which no other counter value prints as; the connections other than the origin
  receive \<open>arrow-done\<close> with the stored arrow, and the origin receives only
  \<open>arrow-confirmed\<close>, which pairs the temporary id of the client with the stored arrow.
\<close>

theorem arrow_done_two_messages:
  "\<exists>s' out saved.
     handle sid clk (ArrowDone arrow) s = Inr (s', out) \<and>
     saved = arrow\<lparr>ar_id := arrowIdOf (nextArrowId s), ar_socketId := sid\<rparr> \<and>
     arrows s' = arrows s @ [saved] \<and>
     nextArrowId s' = Suc (nextArrowId s) \<and>
     (\<forall>m. (arrowIdOf m = ar_id saved) = (m = nextArrowId s)) \<and>
     out = [(Others sid, ''arrow-done'', PArrow saved),
            (Origin sid, ''arrow-confirmed'', PArrowConfirmed (ar_id arrow) saved)] \<and>
     (\<forall>c. filter (receives c) out =
        (if c = sid then [(Origin sid, ''arrow-confirmed'', PArrowConfirmed (ar_id arrow) saved)]
         else [(Others sid, ''arrow-done'', PArrow saved)]))"
  by (simp add: on_arrow_done_def arrowIdOf_inj Let_def)

subsection \<open>Token events on an id that is not in the store\<close>

lemma emptyServer_fields:
  "strokes emptyServer = []" "arrows emptyServer = []" "tokens emptyServer = []"
  "\<not> rec_active emptyServer" "\<not> rep_active emptyServer" "recordings emptyServer = []"
  "boardPresets emptyServer = []" "nextTokenId emptyServer = 1" "pending emptyServer = []"
  by (simp_all add: emptyServer_def initial_def)

lemma recordingServer_fields:
  "tokens recordingServer = []" "strokes recordingServer = []" "arrows recordingServer = []"
  "rec_active recordingServer" "rec_start recordingServer = 1000"
  "rec_timeline recordingServer = []"
  by (simp_all add: recordingServer_def on_recording_start_def emptyServer_def initial_def
      clockAt_def)

text \<open>
  When the target id is not a key of the tokens, \<open>token-remove\<close> and \<open>token-relabel\<close>
  are still broadcast to all connections and, while a recording is active, still
  appended to its timeline, and the store is unchanged. \<open>token-move\<close> on such an id
  emits nothing and changes nothing, the timeline included, unless the id is one of the
  names a plain object inherits: then the guard holds, and the event is sent to the
  other connections and recorded.
\<close>

lemma absent_token_remove_relabel_move:
  assumes "map_of (tokens s) i = None"
  shows "(\<exists>s'. handle sid clk (TokenRemove i) s =
              Inr (s', [(All, ''token-remove'', PTokenId i)]) \<and>
            snapState s' = snapState s \<and>
            rec_timeline s' =
              (if rec_active s
               then rec_timeline s @
                 [\<lparr>e_t = now clk - rec_start s, e_event = ''token-remove'', e_data = PTokenId i\<rparr>]
               else rec_timeline s)) \<and>
         (\<exists>s'. handle sid clk (TokenRelabel i label) s =
              Inr (s', [(All, ''token-relabel'', PTokenLabel i label)]) \<and>
            snapState s' = snapState s \<and>
            rec_timeline s' =
              (if rec_active s
               then rec_timeline s @
                 [\<lparr>e_t = now clk - rec_start s, e_event = ''token-relabel'',
                   e_data = PTokenLabel i label\<rparr>]
               else rec_timeline s)) \<and>
         handle sid clk (TokenMove i x y) s =
           (if i \<in> set objectPrototype
            then Inr (recordEvent clk ''token-move'' (PTokenMove i x y) s,
                      [(Others sid, ''token-move'', PTokenMove i x y)])
            else Inr (s, []))"
proof -
  from assms have "i \<notin> fst ` set (tokens s)"
    by (simp add: map_of_eq_None_iff)
  then have del: "AList.delete i (tokens s) = tokens s" by simp
  have "s\<lparr>tokens := tokens s\<rparr> = s" by simp
  with del show ?thesis
    using assms
    by (simp add: on_token_remove_def on_token_relabel_def on_token_move_def
        recordEvent_timeline)
qed

lemma absent_token_remove_relabel_move_example:
  "map_of (tokens recordingServer) ''t7'' = None \<and>
   (\<exists>s'. handle ''a'' (clockAt 1500) (TokenRemove ''t7'') recordingServer =
        Inr (s', [(All, ''token-remove'', PTokenId ''t7'')]) \<and>
      snapState s' = snapState recordingServer \<and>
      rec_timeline s' =
        [\<lparr>e_t = 500, e_event = ''token-remove'', e_data = PTokenId ''t7''\<rparr>]) \<and>
   (\<exists>s'. handle ''a'' (clockAt 1500) (TokenRelabel ''t7'' ''GK'') recordingServer =
        Inr (s', [(All, ''token-relabel'', PTokenLabel ''t7'' ''GK'')]) \<and>
      snapState s' = snapState recordingServer \<and>
      rec_timeline s' =
        [\<lparr>e_t = 500, e_event = ''token-relabel'', e_data = PTokenLabel ''t7'' ''GK''\<rparr>]) \<and>
   handle ''a'' (clockAt 1500) (TokenMove ''t7'' 1 2) recordingServer = Inr (recordingServer, [])"
  using absent_token_remove_relabel_move
          [of recordingServer "''t7''" "''a''" "clockAt 1500" "''GK''" 1 2]
  by (simp add: recordingServer_fields clockAt_def objectPrototype_def)

text \<open>
  Claim C10. The first half of the claim holds for every id that is not in the store
  (\<open>absent_token_remove_relabel_move\<close>). The second half is what the guard
  \<open>if (state.tokens[id])\<close> of \<open>token-move\<close> is written for, and the guard misses the ids
  that a plain object inherits. A recording is active and the store has no token;
  connection \<open>a\<close> sends \<open>token-move\<close> with the id \<open>constructor\<close>, which is not in the store.
  The server sends \<open>token-move\<close> to the other connections and appends it to the timeline,
  where the claim says it produces no broadcast and no timeline entry.
\<close>

theorem token_move_inherited_id_is_broadcast:
  "tokens recordingServer = [] \<and> rec_active recordingServer \<and>
   rec_timeline recordingServer = [] \<and>
   handle ''a'' (clockAt 1500) (TokenMove ''constructor'' 1 2) recordingServer =
     Inr (recordingServer
            \<lparr>rec_timeline :=
               [\<lparr>e_t = 500, e_event = ''token-move'',
                 e_data = PTokenMove ''constructor'' 1 2\<rparr>]\<rparr>,
          [(Others ''a'', ''token-move'', PTokenMove ''constructor'' 1 2)])"
  by (simp add: recordingServer_fields on_token_move_def objectPrototype_def recordEvent_def
      clockAt_def)

subsection \<open>Removing ids that are not there\<close>

lemma findIndex_None: "(findIndex P xs = None) = (\<forall>x \<in> set xs. \<not> P x)"
  by (induction xs) (auto split: option.splits)

lemma findIndex_Some_less: "findIndex P xs = Some i \<Longrightarrow> i < length xs \<and> P (xs ! i)"
  by (induction xs arbitrary: i) (auto split: option.splits if_splits)

lemma set_splice1: "set (splice1 i xs) \<subseteq> set xs"
  unfolding splice1_def by (auto dest: in_set_takeD in_set_dropD)

lemma removeStroke_absent: "i \<notin> st_id ` set ss \<Longrightarrow> removeStroke i ss = ss"
  by (auto simp: removeStroke_def findIndex_None split: option.splits dest!: findIndex_Some_less)

lemma set_removeStroke: "set (removeStroke j ss) \<subseteq> set ss"
  using set_splice1 by (fastforce simp: removeStroke_def split: option.splits)

lemma set_removeStrokes: "set (removeStrokes ids ss) \<subseteq> set ss"
proof (induction ids arbitrary: ss)
  case Nil
  then show ?case by (simp add: removeStrokes_def)
next
  case (Cons j ids)
  have "set (removeStrokes ids (removeStroke j ss)) \<subseteq> set (removeStroke j ss)"
    using Cons.IH .
  with set_removeStroke [of j ss] show ?case
    by (auto simp: removeStrokes_def)
qed

lemma removeStrokes_skip_absent:
  assumes "i \<notin> st_id ` set ss"
  shows "removeStrokes (ids1 @ i # ids2) ss = removeStrokes (ids1 @ ids2) ss"
proof -
  have "i \<notin> st_id ` set (removeStrokes ids1 ss)"
    using assms set_removeStrokes [of ids1 ss] by auto
  then have "removeStroke i (removeStrokes ids1 ss) = removeStrokes ids1 ss"
    by (rule removeStroke_absent)
  then show ?thesis
    by (simp add: removeStrokes_def)
qed

lemma removeArrow_absent: "i \<notin> ar_id ` set as \<Longrightarrow> removeArrow i as = as"
  by (auto simp: removeArrow_def findIndex_None split: option.splits dest!: findIndex_Some_less)

lemma set_removeArrow: "set (removeArrow j as) \<subseteq> set as"
  using set_splice1 by (fastforce simp: removeArrow_def split: option.splits)

lemma set_removeArrows: "set (removeArrows ids as) \<subseteq> set as"
proof (induction ids arbitrary: as)
  case Nil
  then show ?case by (simp add: removeArrows_def)
next
  case (Cons j ids)
  have "set (removeArrows ids (removeArrow j as)) \<subseteq> set (removeArrow j as)"
    using Cons.IH .
  with set_removeArrow [of j as] show ?case
    by (auto simp: removeArrows_def)
qed

lemma removeArrows_skip_absent:
  assumes "i \<notin> ar_id ` set as"
  shows "removeArrows (ids1 @ i # ids2) as = removeArrows (ids1 @ ids2) as"
proof -
  have "i \<notin> ar_id ` set (removeArrows ids1 as)"
    using assms set_removeArrows [of ids1 as] by auto
  then have "removeArrow i (removeArrows ids1 as) = removeArrows ids1 as"
    by (rule removeArrow_absent)
  then show ?thesis
    by (simp add: removeArrows_def)
qed

lemma tokenIdOf_1: "tokenIdOf (Suc 0) = ''t1''"
  by (simp add: tokenIdOf_def numToString.simps digit_char_def digits_def)

lemma arrowIdOf_1: "arrowIdOf (Suc 0) = ''ar1''"
  by (simp add: arrowIdOf_def numToString.simps digit_char_def digits_def)

lemma boardServer_fields:
  "strokes boardServer = [strokeA, strokeB]"
  "tokens boardServer = [(''t1'', tokenP\<lparr>tk_id := ''t1''\<rparr>)]"
  "arrows boardServer = [arrowP\<lparr>ar_id := ''ar1''\<rparr>]"
  "nextTokenId boardServer = 2" "nextArrowId boardServer = 2"
  "rec_active boardServer = False" "rep_active boardServer = False"
  by (simp_all add: boardServer_def on_arrow_done_def on_token_add_def on_stroke_done_def
      emptyServer_def initial_def Let_def tokenIdOf_1 arrowIdOf_1 strokeA_def strokeB_def
      arrowP_def)

text \<open>
  Claim C7. When an id is in no stroke of the store, \<open>stroke-remove\<close> skips it: the
  ids before and after it in the same event are processed as if it were not there, and
  alone it leaves strokes, arrows and tokens unchanged; the same for \<open>arrow-remove\<close>.
  When an id is not a key of the tokens, \<open>token-remove\<close>, \<open>token-relabel\<close> and
  \<open>token-move\<close> leave the store unchanged. Each handler returns normally (\<open>Inr\<close>), so
  the event loop goes on to the next event.
\<close>

theorem absent_id_is_silent_noop:
  "(i \<notin> st_id ` set (strokes s) \<longrightarrow>
      (\<exists>s' out. handle sid clk (StrokeRemove (ids1 @ i # ids2)) s = Inr (s', out) \<and>
         strokes s' = removeStrokes (ids1 @ ids2) (strokes s) \<and>
         arrows s' = arrows s \<and> tokens s' = tokens s) \<and>
      (\<exists>s' out. handle sid clk (StrokeRemove [i]) s = Inr (s', out) \<and>
         snapState s' = snapState s)) \<and>
   (i \<notin> ar_id ` set (arrows s) \<longrightarrow>
      (\<exists>s' out. handle sid clk (ArrowRemove (ids1 @ i # ids2)) s = Inr (s', out) \<and>
         arrows s' = removeArrows (ids1 @ ids2) (arrows s) \<and>
         strokes s' = strokes s \<and> tokens s' = tokens s) \<and>
      (\<exists>s' out. handle sid clk (ArrowRemove [i]) s = Inr (s', out) \<and>
         snapState s' = snapState s)) \<and>
   (map_of (tokens s) i = None \<longrightarrow>
      (\<exists>s' out. handle sid clk (TokenRemove i) s = Inr (s', out) \<and>
         snapState s' = snapState s) \<and>
      (\<exists>s' out. handle sid clk (TokenRelabel i label) s = Inr (s', out) \<and>
         snapState s' = snapState s) \<and>
      (\<exists>s' out. handle sid clk (TokenMove i x y) s = Inr (s', out) \<and>
         snapState s' = snapState s))"
proof (intro conjI impI)
  assume a: "i \<notin> st_id ` set (strokes s)"
  show "\<exists>s' out. handle sid clk (StrokeRemove (ids1 @ i # ids2)) s = Inr (s', out) \<and>
         strokes s' = removeStrokes (ids1 @ ids2) (strokes s) \<and>
         arrows s' = arrows s \<and> tokens s' = tokens s"
    using removeStrokes_skip_absent [OF a] by (simp add: on_stroke_remove_def)
  have "removeStrokes [i] (strokes s) = strokes s"
    using removeStroke_absent [OF a] by (simp add: removeStrokes_def)
  then show "\<exists>s' out. handle sid clk (StrokeRemove [i]) s = Inr (s', out) \<and>
         snapState s' = snapState s"
    by (simp add: on_stroke_remove_def snapState_def)
next
  assume a: "i \<notin> ar_id ` set (arrows s)"
  show "\<exists>s' out. handle sid clk (ArrowRemove (ids1 @ i # ids2)) s = Inr (s', out) \<and>
         arrows s' = removeArrows (ids1 @ ids2) (arrows s) \<and>
         strokes s' = strokes s \<and> tokens s' = tokens s"
    using removeArrows_skip_absent [OF a] by (simp add: on_arrow_remove_def)
  have "removeArrows [i] (arrows s) = arrows s"
    using removeArrow_absent [OF a] by (simp add: removeArrows_def)
  then show "\<exists>s' out. handle sid clk (ArrowRemove [i]) s = Inr (s', out) \<and>
         snapState s' = snapState s"
    by (simp add: on_arrow_remove_def snapState_def)
next
  assume a: "map_of (tokens s) i = None"
  then have "i \<notin> fst ` set (tokens s)"
    by (simp add: map_of_eq_None_iff)
  then have del: "AList.delete i (tokens s) = tokens s" by simp
  then show "\<exists>s' out. handle sid clk (TokenRemove i) s = Inr (s', out) \<and>
         snapState s' = snapState s"
    by (simp add: on_token_remove_def snapState_def)
  show "\<exists>s' out. handle sid clk (TokenRelabel i label) s = Inr (s', out) \<and>
         snapState s' = snapState s"
    using a by (simp add: on_token_relabel_def)
  show "\<exists>s' out. handle sid clk (TokenMove i x y) s = Inr (s', out) \<and>
         snapState s' = snapState s"
    using a by (simp add: on_token_move_def)
qed

theorem absent_id_is_silent_noop_witness:
  "''zz'' \<notin> st_id ` set (strokes boardServer) \<and>
   ''zz'' \<notin> ar_id ` set (arrows boardServer) \<and>
   map_of (tokens boardServer) ''zz'' = None \<and>
   (\<exists>s' out. handle ''b'' (clockAt 40) (StrokeRemove [''zz'', ''a-1'']) boardServer = Inr (s', out) \<and>
      strokes s' = [strokeB] \<and> arrows s' = arrows boardServer \<and> tokens s' = tokens boardServer) \<and>
   (\<exists>s' out. handle ''b'' (clockAt 40) (ArrowRemove [''zz'']) boardServer = Inr (s', out) \<and>
      snapState s' = snapState boardServer) \<and>
   (\<exists>s' out. handle ''b'' (clockAt 40) (TokenRemove ''zz'') boardServer = Inr (s', out) \<and>
      snapState s' = snapState boardServer)"
  using absent_id_is_silent_noop
          [of "''zz''" boardServer "''b''" "clockAt 40" "[]" "[''a-1'']" "''x''" 0 0]
  by (simp add: boardServer_fields strokeA_def strokeB_def arrowP_def tokenP_def
      removeStrokes_def removeStroke_def splice1_def)

subsection \<open>Stopping a recording\<close>

text \<open>
  Claim C4. \<open>recording-stop\<close> with no recording active changes nothing and emits
  nothing. With a recording active it appends a recording whose duration is the offset of
  the last timeline entry (0 for an empty timeline) and whose event count is the length
  of the timeline. In particular, starting a recording at some instant, receiving two
  strokes 0 ms and 500 ms later and stopping 900 ms later gives duration 500 and event
  count 2.
\<close>

theorem recording_stop_duration_and_count:
  "(\<not> rec_active s1 \<longrightarrow> handle sid clk RecordingStop s1 = Inr (s1, [])) \<and>
   (rec_active s2 \<longrightarrow>
      (\<exists>s' out r. handle sid clk RecordingStop s2 = Inr (s', out) \<and>
         \<not> rec_active s' \<and>
         recordings s' = recordings s2 @ [r] \<and>
         r_timeline r = rec_timeline s2 \<and>
         r_duration r = (if rec_timeline s2 = [] then 0 else e_t (last (rec_timeline s2))) \<and>
         r_eventCount r = length (rec_timeline s2) \<and>
         out = [(All, ''recording-saved'', PRecList (map recSummary (recordings s2 @ [r])))])) \<and>
   (\<not> rec_active s0 \<and> \<not> rep_active s0 \<and>
    now k1 = now k0 \<and> now k2 = now k0 + 500 \<and> now k3 = now k0 + 900 \<longrightarrow>
      (\<exists>s' out r.
         run s0 [Client c0 k0 RecordingStart, Client c1 k1 (StrokeDone a),
                 Client c2 k2 (StrokeDone b), Client c3 k3 RecordingStop] = Inr (s', out) \<and>
         recordings s' = recordings s0 @ [r] \<and>
         map e_t (r_timeline r) = [0, 500] \<and>
         r_duration r = 500 \<and> r_eventCount r = 2))"
proof (intro conjI impI)
  assume "\<not> rec_active s1"
  then show "handle sid clk RecordingStop s1 = Inr (s1, [])"
    by (simp add: on_recording_stop_def)
next
  assume a: "rec_active s2"
  have "rec_timeline s2 \<noteq> [] \<Longrightarrow>
        rec_timeline s2 ! (length (rec_timeline s2) - 1) = last (rec_timeline s2)"
    by (simp add: last_conv_nth)
  with a show "\<exists>s' out r. handle sid clk RecordingStop s2 = Inr (s', out) \<and>
         \<not> rec_active s' \<and>
         recordings s' = recordings s2 @ [r] \<and>
         r_timeline r = rec_timeline s2 \<and>
         r_duration r = (if rec_timeline s2 = [] then 0 else e_t (last (rec_timeline s2))) \<and>
         r_eventCount r = length (rec_timeline s2) \<and>
         out = [(All, ''recording-saved'', PRecList (map recSummary (recordings s2 @ [r])))]"
    by (simp add: on_recording_stop_def Let_def getRecordingsList_def)
next
  assume a: "\<not> rec_active s0 \<and> \<not> rep_active s0 \<and>
    now k1 = now k0 \<and> now k2 = now k0 + 500 \<and> now k3 = now k0 + 900"
  then show "\<exists>s' out r.
         run s0 [Client c0 k0 RecordingStart, Client c1 k1 (StrokeDone a),
                 Client c2 k2 (StrokeDone b), Client c3 k3 RecordingStop] = Inr (s', out) \<and>
         recordings s' = recordings s0 @ [r] \<and>
         map e_t (r_timeline r) = [0, 500] \<and>
         r_duration r = 500 \<and> r_eventCount r = 2"
    by (simp add: on_recording_start_def on_stroke_done_def on_recording_stop_def Let_def
        recordEvent_def)
qed

theorem recording_stop_duration_and_count_witness:
  "\<not> rec_active emptyServer \<and>
   handle ''a'' (clockAt 1900) RecordingStop emptyServer = Inr (emptyServer, []) \<and>
   rec_active recordingServer \<and>
   (\<exists>s' out r. handle ''a'' (clockAt 1900) RecordingStop recordingServer = Inr (s', out) \<and>
      recordings s' = recordings recordingServer @ [r] \<and>
      r_duration r = 0 \<and> r_eventCount r = 0) \<and>
   \<not> rep_active emptyServer \<and>
   now (clockAt 1500) = now (clockAt 1000) + 500 \<and>
   now (clockAt 1900) = now (clockAt 1000) + 900 \<and>
   (\<exists>s' out r.
      run emptyServer
        [Client ''a'' (clockAt 1000) RecordingStart, Client ''a'' (clockAt 1000) (StrokeDone strokeA),
         Client ''b'' (clockAt 1500) (StrokeDone strokeB), Client ''a'' (clockAt 1900) RecordingStop]
        = Inr (s', out) \<and>
      recordings s' = recordings emptyServer @ [r] \<and> r_duration r = 500 \<and> r_eventCount r = 2)"
proof -
  note t = recording_stop_duration_and_count
          [of emptyServer "''a''" "clockAt 1900" recordingServer emptyServer
              "clockAt 1000" "clockAt 1000" "clockAt 1500" "clockAt 1900"
              "''a''" "''a''" strokeA "''b''" strokeB "''a''"]
  have h1: "\<not> rec_active emptyServer" and h2: "\<not> rep_active emptyServer"
    by (simp_all add: emptyServer_fields)
  have h3: "rec_active recordingServer" "rec_timeline recordingServer = []"
    by (simp_all add: recordingServer_fields)
  have h4: "now (clockAt 1000) = now (clockAt 1000)"
    "now (clockAt 1500) = now (clockAt 1000) + 500"
    "now (clockAt 1900) = now (clockAt 1000) + 900"
    by (simp_all add: clockAt_def)
  from t h1 have c1: "handle ''a'' (clockAt 1900) RecordingStop emptyServer = Inr (emptyServer, [])"
    by blast
  from t h3 have c2: "\<exists>s' out r. handle ''a'' (clockAt 1900) RecordingStop recordingServer = Inr (s', out) \<and>
      recordings s' = recordings recordingServer @ [r] \<and>
      r_duration r = 0 \<and> r_eventCount r = 0"
    by auto
  from t h1 h2 h4 have c3: "\<exists>s' out r.
      run emptyServer
        [Client ''a'' (clockAt 1000) RecordingStart, Client ''a'' (clockAt 1000) (StrokeDone strokeA),
         Client ''b'' (clockAt 1500) (StrokeDone strokeB), Client ''a'' (clockAt 1900) RecordingStop]
        = Inr (s', out) \<and>
      recordings s' = recordings emptyServer @ [r] \<and> r_duration r = 500 \<and> r_eventCount r = 2"
    by blast
  from h1 h2 h3 h4 c1 c2 c3 show ?thesis by blast
qed

subsection \<open>Strokes are stored as they arrive\<close>




subsection \<open>Starting a recording or a replay in the wrong state\<close>

text \<open>The example recording is what the run of claim C4 saves.\<close>

lemma recA_is_recorded:
  "(case run emptyServer
          [Client ''a'' (clockAt 1000) RecordingStart,
           Client ''a'' (clockAt 1000) (StrokeDone strokeA),
           Client ''b'' (clockAt 1500) (StrokeDone strokeB),
           Client ''a'' (clockAt 1900) RecordingStop] of
      Inl err \<Rightarrow> False
    | Inr (s', out) \<Rightarrow> recordings s' = [recA])"
  by (simp add: emptyServer_def initial_def on_recording_start_def on_stroke_done_def
      on_recording_stop_def Let_def recordEvent_def clockAt_def recA_def snapState_def
      strokeA_def strokeB_def)

lemma recording_start_rejected:
  "rec_active s \<or> rep_active s \<Longrightarrow> handle sid clk RecordingStart s = Inr (s, [])"
  by (simp add: on_recording_start_def)

lemma replay_start_rejected_while_replaying:
  "rep_active s \<Longrightarrow> handle sid clk (ReplayStart recId) s = Inr (s, [])"
  by (simp add: on_replay_start_def)

lemma replay_start_unknown_recording:
  "find (\<lambda>r. r_id r = recId) (recordings s) = None \<Longrightarrow>
   handle sid clk (ReplayStart recId) s = Inr (s, [])"
  by (simp add: on_replay_start_def)

text \<open>
  Claim C2 says that \<open>replay-start\<close> is a silent no-op while a recording is active. The
  handler tests \<open>rep.active\<close> only. On a server that holds the recording \<open>recA\<close>, after
  \<open>recording-start\<close> and one stroke, \<open>replay-start\<close> for that recording returns with
  both the recording and the replay active, the strokes replaced by those of the snapshot
  of \<open>recA\<close>, three timers scheduled and three messages sent to all connections.
\<close>

theorem replay_start_while_recording_runs:
  "(case run loadedServer
          [Client ''a'' (clockAt 1000) RecordingStart,
           Client ''a'' (clockAt 1100) (StrokeDone strokeB)] of
      Inl err \<Rightarrow> False
    | Inr (s, out) \<Rightarrow>
        rec_active s \<and> \<not> rep_active s \<and> strokes s = [strokeB\<lparr>st_socketId := ''a''\<rparr>] \<and>
        (case handle ''b'' (clockAt 1200) (ReplayStart 1) s of
           Inl err \<Rightarrow> False
         | Inr (s', out') \<Rightarrow>
             rec_active s' \<and> rep_active s' \<and> rep_currentRecId s' = Some 1 \<and>
             strokes s' = [] \<and> rep_timers s' = [1, 2, 3] \<and>
             out' = [(All, ''clear-board'', PNone), (All, ''tokens-cleared'', PNone),
                     (All, ''replay-started'', PReplayStarted 500 1)]))"
  by (simp add: loadedServer_def initial_def on_recording_start_def on_stroke_done_def
      on_replay_start_def Let_def recordEvent_def clockAt_def recA_def snapState_def
      setTimeout_def boardPayload_def)

subsection \<open>The replay timers and the snapshot taken at \<open>replay-start\<close>\<close>

lemmas handler_defs =
  on_join_def on_draw_move_def on_stroke_done_def on_stroke_remove_def on_token_add_def
  on_token_move_def on_token_remove_def on_token_relabel_def on_arrow_done_def
  on_arrow_remove_def on_clear_board_def on_clear_drawings_def on_cursor_move_def
  on_recording_start_def on_recording_stop_def on_get_recordings_def
  on_rename_recording_def on_delete_recording_def on_save_preset_def on_load_preset_def
  on_rename_preset_def on_delete_preset_def on_get_presets_def on_disconnect_def
  getNextColor_def

lemma fold_clearTimeout:
  "fold clearTimeout tids s = s\<lparr>pending := filter (\<lambda>p. fst p \<notin> set tids) (pending s)\<rparr>"
proof (induction tids arbitrary: s)
  case Nil
  show ?case by simp
next
  case (Cons tid tids)
  have "filter (\<lambda>p. fst p \<notin> set tids) (AList.delete tid (pending s)) =
        filter (\<lambda>p. fst p \<notin> set (tid # tids)) (pending s)"
    by (induction "pending s") (auto simp: AList.delete_eq intro: filter_cong)
  with Cons show ?case
    by (simp add: clearTimeout_def)
qed

lemma finishReplay_Some:
  assumes "rep_preSnap s = Some p"
  shows "finishReplay s =
           Inr (s\<lparr>pending := filter (\<lambda>q. fst q \<notin> set (rep_timers s)) (pending s),
                  rep_timers := [], rep_active := False, rep_currentRecId := None,
                  strokes := snap_strokes p, arrows := snap_arrows p, tokens := snap_tokens p\<rparr>,
                [(All, ''clear-board'', PNone), (All, ''tokens-cleared'', PNone),
                 (All, ''replay-restore'', boardPayload p), (All, ''replay-done'', PNone)])"
  using assms by (simp add: finishReplay_def fold_clearTimeout Let_def)

lemma finishReplay_None: "rep_preSnap s = None \<Longrightarrow> finishReplay s = Inl TypeError"
  by (simp add: finishReplay_def fold_clearTimeout Let_def)

lemma schedule_timeline_eq:
  "schedule_timeline es s =
     s\<lparr>pending := pending s @ timeline_timers (nextTimer s) es,
       nextTimer := nextTimer s + length es,
       rep_timers := rep_timers s @ map fst (timeline_timers (nextTimer s) es)\<rparr>"
  by (induction es arbitrary: s) (simp_all add: setTimeout_def)

lemma timeline_timers_mem:
  "(tid, d, cb) \<in> set (timeline_timers n es) \<Longrightarrow>
   n \<le> tid \<and> tid < n + length es \<and> \<not> is_replay_init cb"
  by (induction es arbitrary: n) fastforce+

lemma on_replay_start_eq:
  assumes "\<not> rep_active s"
      and "find (\<lambda>r. r_id r = recId) (recordings s) = Some r"
      and "r_snapshot r = Some snap"
  shows "on_replay_start recId s =
           Inr (s\<lparr>rep_active := True, rep_currentRecId := Some recId,
                  rep_preSnap := Some (snapState s),
                  strokes := snap_strokes snap, arrows := snap_arrows snap,
                  tokens := snap_tokens snap,
                  pending := pending s @ [(nextTimer s, 150, EmitReplayInit (boardPayload snap))] @
                    timeline_timers (Suc (nextTimer s)) (r_timeline r) @
                    [(Suc (nextTimer s) + length (r_timeline r), r_duration r + 900, FinishReplay)],
                  nextTimer := Suc (Suc (nextTimer s)) + length (r_timeline r),
                  rep_timers := map fst (timeline_timers (Suc (nextTimer s)) (r_timeline r)) @
                    [Suc (nextTimer s) + length (r_timeline r)]\<rparr>,
                [(All, ''clear-board'', PNone), (All, ''tokens-cleared'', PNone),
                 (All, ''replay-started'', PReplayStarted (r_duration r) recId)])"
  using assms
  by (simp add: on_replay_start_def schedule_timeline_eq setTimeout_def Let_def)


lemma handle_rep_frame:
  assumes "handle sid clk e s = Inr (s', out)"
      and "\<forall>recId. e \<noteq> ReplayStart recId" and "e \<noteq> ReplayStop"
  shows "pending s' = pending s \<and> nextTimer s' = nextTimer s \<and>
         rep_active s' = rep_active s \<and> rep_timers s' = rep_timers s \<and>
         rep_preSnap s' = rep_preSnap s \<and> rep_currentRecId s' = rep_currentRecId s"
  using assms
  by (cases e) (auto simp: handler_defs Let_def split: option.splits if_splits)

lemma tracked_inactive:
  "\<not> rep_active s \<Longrightarrow> tracked s = list_all (\<lambda>(tid, delay, cb). is_replay_init cb) (pending s)"
  by (simp add: tracked_def)

lemma finishReplay_tracked:
  assumes "tracked s" and "finishReplay s = Inr (s', out)"
  shows "list_all (\<lambda>(tid, delay, cb). is_replay_init cb) (pending s') \<and> \<not> rep_active s' \<and>
         rep_timers s' = [] \<and> rep_preSnap s' = rep_preSnap s"
proof (cases "rep_preSnap s")
  case None
  with assms(2) show ?thesis by (simp add: finishReplay_None)
next
  case (Some p)
  from assms(1) have "list_all (\<lambda>(tid, delay, cb). is_replay_init cb)
      (filter (\<lambda>q. fst q \<notin> set (rep_timers s)) (pending s))"
    by (auto simp: tracked_def list_all_iff)
  with assms(2) Some show ?thesis
    by (auto simp: finishReplay_Some)
qed

lemma timeline_timers_tracked:
  "list_all (\<lambda>(tid, delay, cb). is_replay_init cb \<or> tid \<in> set (map fst (timeline_timers n es) @ ys))
     (timeline_timers n es)"
  by (auto simp: list_all_iff intro: rev_image_eqI)

lemma on_replay_start_tracked:
  assumes "tracked s" and "on_replay_start recId s = Inr (s', out)"
  shows "tracked s'"
proof (cases "rep_active s")
  case True
  with assms show ?thesis by (simp add: on_replay_start_def)
next
  case False
  show ?thesis
  proof (cases "find (\<lambda>r. r_id r = recId) (recordings s)")
    case None
    with assms False show ?thesis by (simp add: on_replay_start_def)
  next
    case (Some r)
    note found = this
    show ?thesis
    proof (cases "r_snapshot r")
      case None
      with assms False found show ?thesis by (simp add: on_replay_start_def)
    next
      case (Some snap)
      from assms(1) False have old: "list_all (\<lambda>(tid, delay, cb). is_replay_init cb) (pending s)"
        by (simp add: tracked_inactive)
      then have old': "\<forall>q \<in> set (pending s). is_replay_init (snd (snd q))"
        by (auto simp: list_all_iff)
      from assms(2) have s': "s' = fst (projr (on_replay_start recId s))" by simp
      show ?thesis
        unfolding s' on_replay_start_eq [OF False found Some]
        using old' by (auto simp: tracked_def list_all_iff intro: rev_image_eqI)
    qed
  qed
qed

lemma fire_tracked:
  assumes "tracked s" and "fire tid s = Inr (s', out)"
  shows "tracked s'"
proof (cases "map_of (pending s) tid")
  case None
  with assms show ?thesis by (simp add: fire_def)
next
  case (Some dc)
  obtain delay cb where dc: "dc = (delay, cb)" by (cases dc)
  let ?s1 = "s\<lparr>pending := AList.delete tid (pending s)\<rparr>"
  have t1: "tracked ?s1"
    using assms(1) by (auto simp: tracked_def list_all_iff AList.delete_eq)
  show ?thesis
  proof (cases cb)
    case (EmitReplayInit d)
    with assms(2) Some dc t1 show ?thesis by (auto simp: fire_def)
  next
    case (ReEmit ev d)
    with assms(2) Some dc t1 show ?thesis by (auto simp: fire_def)
  next
    case FinishReplay
    with assms(2) Some dc have "finishReplay ?s1 = Inr (s', out)"
      by (simp add: fire_def)
    from finishReplay_tracked [OF t1 this] show ?thesis
      by (simp add: tracked_inactive)
  qed
qed

lemma step_tracked:
  assumes "tracked s" and "step a s = Inr (s', out)"
  shows "tracked s'"
proof (cases a)
  case (TimerFire tid)
  with assms(2) have "fire tid s = Inr (s', out)" by simp
  with assms(1) show ?thesis by (rule fire_tracked)
next
  case (Client sid clk e)
  consider (start) recId where "e = ReplayStart recId" | (stop) "e = ReplayStop"
    | (other) "\<forall>recId. e \<noteq> ReplayStart recId" "e \<noteq> ReplayStop"
    by blast
  then show ?thesis
  proof cases
    case start
    with assms(2) Client have "on_replay_start recId s = Inr (s', out)" by simp
    with assms(1) show ?thesis by (rule on_replay_start_tracked)
  next
    case stop
    show ?thesis
    proof (cases "rep_active s")
      case True
      with assms Client stop have "finishReplay s = Inr (s', out)"
        by (simp add: on_replay_stop_def)
      from finishReplay_tracked [OF assms(1) this] show ?thesis
        by (simp add: tracked_inactive)
    next
      case False
      with assms Client stop show ?thesis by (simp add: on_replay_stop_def)
    qed
  next
    case other
    from assms(2) Client have "handle sid clk e s = Inr (s', out)" by simp
    from handle_rep_frame [OF this other] assms(1) show ?thesis
      by (simp add: tracked_def)
  qed
qed

lemma step_preSnap:
  assumes "rep_active s" and "step a s = Inr (s', out)"
  shows "rep_preSnap s' = rep_preSnap s"
proof (cases a)
  case (TimerFire tid)
  show ?thesis
  proof (cases "rep_preSnap s")
    case None
    with assms TimerFire show ?thesis
      by (auto simp: fire_def finishReplay_None Let_def split: option.splits timer_action.splits)
  next
    case (Some p)
    with assms TimerFire show ?thesis
      by (auto simp: fire_def finishReplay_Some Let_def split: option.splits timer_action.splits)
  qed
next
  case (Client sid clk e)
  consider (start) recId where "e = ReplayStart recId" | (stop) "e = ReplayStop"
    | (other) "\<forall>recId. e \<noteq> ReplayStart recId" "e \<noteq> ReplayStop"
    by blast
  then show ?thesis
  proof cases
    case start
    with assms Client show ?thesis by (simp add: on_replay_start_def)
  next
    case stop
    with assms Client show ?thesis
      by (cases "rep_preSnap s") (auto simp: on_replay_stop_def finishReplay_None finishReplay_Some)
  next
    case other
    from assms(2) Client have "handle sid clk e s = Inr (s', out)" by simp
    from handle_rep_frame [OF this other] show ?thesis by simp
  qed
qed

lemma replay_alive_inv:
  assumes "replay_alive s acts = Some s'" and "rep_active s" and "tracked s"
  shows "rep_active s' \<and> tracked s' \<and> rep_preSnap s' = rep_preSnap s"
  using assms
proof (induction acts arbitrary: s)
  case Nil
  then show ?case by simp
next
  case (Cons a acts)
  from Cons.prems(1) obtain s1 out where
    st: "step a s = Inr (s1, out)" and act: "rep_active s1" and rest: "replay_alive s1 acts = Some s'"
    by (auto split: sum.splits if_splits)
  from step_tracked [OF Cons.prems(3) st] have t1: "tracked s1" .
  from step_preSnap [OF Cons.prems(2) st] have p1: "rep_preSnap s1 = rep_preSnap s" .
  from Cons.IH [OF rest act t1] p1 show ?case by simp
qed

lemma tracked_initial: "tracked (initial presets nextPreset recs nextRec)"
  by (simp add: tracked_def initial_def)

lemma run_tracked:
  assumes "tracked s" and "run s acts = Inr (s', out)"
  shows "tracked s'"
  using assms
proof (induction acts arbitrary: s out)
  case Nil
  then show ?case by simp
next
  case (Cons a acts)
  from Cons.prems(2) obtain s1 out1 out2 where
    st: "step a s = Inr (s1, out1)" and rest: "run s1 acts = Inr (s', out2)"
    by (auto split: sum.splits prod.splits)
  from step_tracked [OF Cons.prems(1) st] have "tracked s1" .
  from Cons.IH [OF this rest] show ?case .
qed

subsection \<open>An example replay\<close>

lemma drawnServer_eq:
  "drawnServer = loadedServer\<lparr>strokes := [strokeA]\<rparr>"
  by (simp add: drawnServer_def on_stroke_done_def recordEvent_def loadedServer_def initial_def
      Let_def strokeA_def)

lemma replayingServer_eq:
  "on_replay_start 1 drawnServer =
     Inr (replayingServer,
          [(All, ''clear-board'', PNone), (All, ''tokens-cleared'', PNone),
           (All, ''replay-started'', PReplayStarted 500 1)])"
  "replayingServer =
     loadedServer\<lparr>rep_active := True, rep_currentRecId := Some 1,
       rep_preSnap := Some \<lparr>snap_strokes = [strokeA], snap_arrows = [], snap_tokens = []\<rparr>,
       pending := [(0, 150, EmitReplayInit (PBoard [] [] [])),
                   (1, 350, ReEmit ''stroke-done'' (PStroke strokeA)),
                   (2, 850, ReEmit ''stroke-done'' (PStroke strokeB)),
                   (3, 1400, FinishReplay)],
       nextTimer := 4, rep_timers := [1, 2, 3]\<rparr>"
  by (simp_all add: replayingServer_def drawnServer_eq on_replay_start_def loadedServer_def
      initial_def recA_def Let_def setTimeout_def snapState_def boardPayload_def)

lemma midReplayServer_eq:
  "replay_alive replayingServer [TimerFire 1, Client ''b'' (clockAt 400) (StrokeDone strokeB)] =
     Some midReplayServer"
  "midReplayServer =
     replayingServer\<lparr>pending := [(0, 150, EmitReplayInit (PBoard [] [] [])),
                                 (2, 850, ReEmit ''stroke-done'' (PStroke strokeB)),
                                 (3, 1400, FinishReplay)],
                     strokes := [strokeB]\<rparr>"
  by (simp_all add: midReplayServer_def replayingServer_eq(2) fire_def on_stroke_done_def
      recordEvent_def loadedServer_def initial_def Let_def strokeB_def)

subsection \<open>Token ids\<close>

lemma issued_iff: "issued n k = (\<exists>m < n. k = tokenIdOf m)"
  by (auto simp: issued_def)

lemma issued_mono:
  assumes "issued n k" and "n \<le> m"
  shows "issued m k"
proof -
  from assms(1) obtain j where "j < n" and "k = tokenIdOf j"
    by (auto simp: issued_iff)
  with assms(2) have "j < m \<and> k = tokenIdOf j" by simp
  then show ?thesis unfolding issued_iff by blast
qed

lemma not_issued_next: "\<not> issued n (tokenIdOf n)"
  by (simp add: issued_iff tokenIdOf_inj)

lemma update_absent: "k \<notin> fst ` set al \<Longrightarrow> AList.update k v al = al @ [(k, v)]"
  by (induction al) auto

lemma tokens_ok_fresh:
  assumes "tokens_ok s"
  shows "tokenIdOf (nextTokenId s) \<notin> fst ` set (tokens s)"
proof
  assume "tokenIdOf (nextTokenId s) \<in> fst ` set (tokens s)"
  then obtain t where "(tokenIdOf (nextTokenId s), t) \<in> set (tokens s)" by auto
  with assms have "issued (nextTokenId s) (tokenIdOf (nextTokenId s))"
    by (auto simp: tokens_ok_def list_all_iff)
  then show False by (simp add: not_issued_next)
qed

lemma on_token_add_ok:
  assumes "tokens_ok s"
  shows "on_token_add clk token s =
           (recordEvent clk ''token-add'' (PToken (token\<lparr>tk_id := tokenIdOf (nextTokenId s)\<rparr>))
              (s\<lparr>nextTokenId := Suc (nextTokenId s),
                 tokens := tokens s @
                   [(tokenIdOf (nextTokenId s), token\<lparr>tk_id := tokenIdOf (nextTokenId s)\<rparr>)]\<rparr>),
            [(All, ''token-add'', PToken (token\<lparr>tk_id := tokenIdOf (nextTokenId s)\<rparr>))])"
    and "tokens_ok (fst (on_token_add clk token s))"
proof -
  note fresh = tokens_ok_fresh [OF assms]
  then show eq: "on_token_add clk token s =
           (recordEvent clk ''token-add'' (PToken (token\<lparr>tk_id := tokenIdOf (nextTokenId s)\<rparr>))
              (s\<lparr>nextTokenId := Suc (nextTokenId s),
                 tokens := tokens s @
                   [(tokenIdOf (nextTokenId s), token\<lparr>tk_id := tokenIdOf (nextTokenId s)\<rparr>)]\<rparr>),
            [(All, ''token-add'', PToken (token\<lparr>tk_id := tokenIdOf (nextTokenId s)\<rparr>))])"
    by (simp add: on_token_add_def Let_def update_absent)
  have "issued (Suc (nextTokenId s)) (tokenIdOf (nextTokenId s))"
    by (auto simp: issued_iff)
  moreover have "list_all (\<lambda>(k, t). tk_id t = k \<and> issued (Suc (nextTokenId s)) k) (tokens s)"
    using assms by (auto simp: tokens_ok_def list_all_iff intro: issued_mono)
  moreover have "distinct (map fst (tokens s))"
    using assms by (simp add: tokens_ok_def)
  ultimately show "tokens_ok (fst (on_token_add clk token s))"
    using fresh by (simp add: eq tokens_ok_def)
qed

lemma token_adds_fresh:
  assumes "tokens_ok s"
  shows "\<exists>s' out. run s (token_adds adds) = Inr (s', out) \<and>
           nextTokenId s' = nextTokenId s + length adds \<and>
           tokens s' = tokens s @ added_tokens (nextTokenId s) adds \<and>
           out = map (\<lambda>(k, t). (All, ''token-add'', PToken t)) (added_tokens (nextTokenId s) adds) \<and>
           distinct (map fst (tokens s')) \<and>
           list_all (\<lambda>(k, t). tk_id t = k) (tokens s') \<and>
           tokens_ok s'"
  using assms
proof (induction adds arbitrary: s)
  case Nil
  then show ?case by (simp add: token_adds_def tokens_ok_def list_all_iff split_def)
next
  case (Cons a adds)
  obtain sid clk token where a: "a = (sid, clk, token)" by (cases a)
  let ?m = "(All, ''token-add'', PToken (token\<lparr>tk_id := tokenIdOf (nextTokenId s)\<rparr>))"
  let ?s1 = "recordEvent clk ''token-add'' (PToken (token\<lparr>tk_id := tokenIdOf (nextTokenId s)\<rparr>))
              (s\<lparr>nextTokenId := Suc (nextTokenId s),
                 tokens := tokens s @
                   [(tokenIdOf (nextTokenId s), token\<lparr>tk_id := tokenIdOf (nextTokenId s)\<rparr>)]\<rparr>)"
  note step1 = on_token_add_ok [OF Cons.prems, of clk token]
  have st: "on_token_add clk token s = (?s1, [?m])" by (rule step1(1))
  have ok1: "tokens_ok ?s1" using step1(2) by (simp add: st)
  from Cons.IH [OF ok1] obtain s' out where
    r: "run ?s1 (token_adds adds) = Inr (s', out)" and
    n: "nextTokenId s' = nextTokenId ?s1 + length adds" and
    t: "tokens s' = tokens ?s1 @ added_tokens (nextTokenId ?s1) adds" and
    o: "out = map (\<lambda>(k, t). (All, ''token-add'', PToken t)) (added_tokens (nextTokenId ?s1) adds)" and
    d: "distinct (map fst (tokens s'))" and
    i: "list_all (\<lambda>(k, t). tk_id t = k) (tokens s')" and
    ok: "tokens_ok s'"
    by blast
  have n1: "nextTokenId ?s1 = Suc (nextTokenId s)"
    and t1: "tokens ?s1 = tokens s @ [(tokenIdOf (nextTokenId s), token\<lparr>tk_id := tokenIdOf (nextTokenId s)\<rparr>)]"
    by simp_all
  have "run s (token_adds (a # adds)) =
      (case run ?s1 (token_adds adds) of Inl err \<Rightarrow> Inl err
       | Inr (s2, out2) \<Rightarrow> Inr (s2, [?m] @ out2))"
    by (simp add: token_adds_def a st)
  with r have run1: "run s (token_adds (a # adds)) = Inr (s', ?m # out)"
    by simp
  show ?case
    apply (intro exI [of _ s'] exI [of _ "(All, ''token-add'', PToken (token\<lparr>tk_id := tokenIdOf (nextTokenId s)\<rparr>)) # out"])
    using run1 n t o d i ok n1 t1
    by (simp add: a)
qed

lemma tokens_ok_initial: "tokens_ok (initial presets nextPreset recs nextRec)"
  by (simp add: tokens_ok_def initial_def)

lemma emptyServer_tokens_ok: "tokens_ok emptyServer"
  by (simp add: emptyServer_def tokens_ok_initial)

lemma tokenIdOf_2: "tokenIdOf (Suc (Suc 0)) = ''t2''"
  by (simp add: tokenIdOf_def numToString.simps digit_char_def digits_def)

subsection \<open>What the recorder captures\<close>

text \<open>
  While a recording is active, every \<open>stroke-done\<close> and \<open>stroke-remove\<close> event appends
  one entry to the timeline, and the strokes of the store are the recorded entries applied
  to the strokes the store had before.
\<close>

lemma stroke_event_recorded:
  assumes "rec_active s" and "is_stroke_event e"
  shows "\<exists>s' out en. handle sid clk e s = Inr (s', out) \<and> rec_active s' \<and>
           rec_timeline s' = rec_timeline s @ [en] \<and>
           strokes s' = apply_entry en (strokes s) \<and> rec_snapshot s' = rec_snapshot s"
  using assms
  by (cases e) (simp_all add: on_stroke_done_def on_stroke_remove_def Let_def
      recordEvent_timeline apply_entry_def)

lemma recording_captures_stroke_operations:
  assumes "rec_active s" and "list_all (\<lambda>(sid, clk, e). is_stroke_event e) evs"
  shows "\<exists>s' out new. run s (client_actions evs) = Inr (s', out) \<and> rec_active s' \<and>
           rec_timeline s' = rec_timeline s @ new \<and> length new = length evs \<and>
           strokes s' = apply_timeline new (strokes s) \<and> rec_snapshot s' = rec_snapshot s"
  using assms
proof (induction evs arbitrary: s)
  case Nil
  then show ?case by (simp add: client_actions_def apply_timeline_def)
next
  case (Cons a evs)
  obtain sid clk e where a: "a = (sid, clk, e)" by (cases a)
  with Cons.prems(2) have se: "is_stroke_event e"
    and rest: "list_all (\<lambda>(sid, clk, e). is_stroke_event e) evs"
    by simp_all
  from stroke_event_recorded [OF Cons.prems(1) se, of sid clk]
  obtain s1 out1 en where h: "handle sid clk e s = Inr (s1, out1)" and act: "rec_active s1"
    and tl: "rec_timeline s1 = rec_timeline s @ [en]"
    and st: "strokes s1 = apply_entry en (strokes s)" and sn: "rec_snapshot s1 = rec_snapshot s"
    by blast
  from Cons.IH [OF act rest] obtain s' out new where
    r: "run s1 (client_actions evs) = Inr (s', out)" and act': "rec_active s'"
    and tl': "rec_timeline s' = rec_timeline s1 @ new" and len: "length new = length evs"
    and st': "strokes s' = apply_timeline new (strokes s1)" and sn': "rec_snapshot s' = rec_snapshot s1"
    by blast
  have "run s (client_actions (a # evs)) = Inr (s', out1 @ out)"
    using h r by (simp add: client_actions_def a)
  moreover have "rec_timeline s' = rec_timeline s @ (en # new)" using tl tl' by simp
  moreover have "strokes s' = apply_timeline (en # new) (strokes s)"
    using st st' by (simp add: apply_timeline_def)
  ultimately show ?case using act' len sn sn'
    by (intro exI [of _ s'] exI [of _ "out1 @ out"] exI [of _ "en # new"]) simp
qed

subsection \<open>What a replay does to the store\<close>

lemma fresh_timers_initial: "fresh_timers (initial presets nextPreset recs nextRec)"
  by (simp add: fresh_timers_def initial_def)

lemma finishReplay_fresh:
  assumes "fresh_timers s" and "finishReplay s = Inr (s', out)"
  shows "fresh_timers s'"
proof (cases "rep_preSnap s")
  case None
  with assms(2) show ?thesis by (simp add: finishReplay_None)
next
  case (Some p)
  with assms show ?thesis
    by (auto simp: finishReplay_Some fresh_timers_def list_all_iff)
qed

lemma on_replay_start_fresh:
  assumes "fresh_timers s" and "on_replay_start recId s = Inr (s', out)"
  shows "fresh_timers s'"
proof (cases "rep_active s")
  case True
  with assms show ?thesis by (simp add: on_replay_start_def)
next
  case False
  show ?thesis
  proof (cases "find (\<lambda>r. r_id r = recId) (recordings s)")
    case None
    with assms False show ?thesis by (simp add: on_replay_start_def)
  next
    case (Some r)
    note found = this
    show ?thesis
    proof (cases "r_snapshot r")
      case None
      with assms False found show ?thesis by (simp add: on_replay_start_def)
    next
      case (Some snap)
      from assms(1) have old: "\<forall>q \<in> set (pending s). fst q < nextTimer s"
        by (auto simp: fresh_timers_def list_all_iff)
      have tt: "\<forall>q \<in> set (timeline_timers (Suc (nextTimer s)) (r_timeline r)).
                  fst q < Suc (Suc (nextTimer s)) + length (r_timeline r)"
        using timeline_timers_mem by fastforce
      from assms(2) have s': "s' = fst (projr (on_replay_start recId s))" by simp
      show ?thesis
        unfolding s' on_replay_start_eq [OF False found Some]
        using old tt by (auto simp: fresh_timers_def list_all_iff)
    qed
  qed
qed

lemma step_fresh:
  assumes "fresh_timers s" and "step a s = Inr (s', out)"
  shows "fresh_timers s'"
proof (cases a)
  case (TimerFire tid)
  show ?thesis
  proof (cases "map_of (pending s) tid")
    case None
    with assms TimerFire show ?thesis by (simp add: fire_def)
  next
    case (Some dc)
    obtain delay cb where dc: "dc = (delay, cb)" by (cases dc)
    let ?s1 = "s\<lparr>pending := AList.delete tid (pending s)\<rparr>"
    have f1: "fresh_timers ?s1"
      using assms(1) by (auto simp: fresh_timers_def list_all_iff AList.delete_eq)
    show ?thesis
    proof (cases cb)
      case (EmitReplayInit d)
      with assms(2) TimerFire Some dc f1 show ?thesis by (auto simp: fire_def)
    next
      case (ReEmit ev d)
      with assms(2) TimerFire Some dc f1 show ?thesis by (auto simp: fire_def)
    next
      case FinishReplay
      with assms(2) TimerFire Some dc have "finishReplay ?s1 = Inr (s', out)"
        by (simp add: fire_def)
      with f1 show ?thesis by (rule finishReplay_fresh)
    qed
  qed
next
  case (Client sid clk e)
  consider (start) recId where "e = ReplayStart recId" | (stop) "e = ReplayStop"
    | (other) "\<forall>recId. e \<noteq> ReplayStart recId" "e \<noteq> ReplayStop"
    by blast
  then show ?thesis
  proof cases
    case start
    with assms(2) Client have "on_replay_start recId s = Inr (s', out)" by simp
    with assms(1) show ?thesis by (rule on_replay_start_fresh)
  next
    case stop
    show ?thesis
    proof (cases "rep_active s")
      case True
      with assms Client stop have "finishReplay s = Inr (s', out)"
        by (simp add: on_replay_stop_def)
      with assms(1) show ?thesis by (rule finishReplay_fresh)
    next
      case False
      with assms Client stop show ?thesis by (simp add: on_replay_stop_def)
    qed
  next
    case other
    from assms(2) Client have "handle sid clk e s = Inr (s', out)" by simp
    from handle_rep_frame [OF this other] assms(1) show ?thesis
      by (simp add: fresh_timers_def)
  qed
qed

lemma run_fresh:
  assumes "fresh_timers s" and "run s acts = Inr (s', out)"
  shows "fresh_timers s'"
  using assms
proof (induction acts arbitrary: s out)
  case Nil
  then show ?case by simp
next
  case (Cons a acts)
  from Cons.prems(2) obtain s1 out1 out2 where
    st: "step a s = Inr (s1, out1)" and rest: "run s1 acts = Inr (s', out2)"
    by (auto split: sum.splits prod.splits)
  from step_fresh [OF Cons.prems(1) st] have "fresh_timers s1" .
  from Cons.IH [OF this rest] show ?case .
qed

lemma map_of_append_absent:
  "k \<notin> fst ` set xs \<Longrightarrow> map_of (xs @ ys) k = map_of ys k"
  by (induction xs) auto





lemma length_timeline_timers [simp]: "length (timeline_timers n es) = length es"
  by (induction es arbitrary: n) simp_all




subsection \<open>The end of a replay\<close>

text \<open>While a replay is active its end timer, the last of \<open>rep.timers\<close>, stays pending.\<close>

lemma end_timer_pending_iff:
  "end_timer_pending s =
     (rep_timers s \<noteq> [] \<and> (\<exists>delay. map_of (pending s) (last (rep_timers s)) = Some (delay, FinishReplay)))"
  by (auto simp: end_timer_pending_def split: option.splits timer_action.splits)

lemma on_replay_start_end_timer:
  assumes "\<not> rep_active s" and "fresh_timers s"
      and "on_replay_start recId s = Inr (s', out)" and "rep_active s'"
  shows "end_timer_pending s'"
proof (cases "find (\<lambda>r. r_id r = recId) (recordings s)")
  case None
  with assms show ?thesis by (simp add: on_replay_start_def)
next
  case (Some r)
  note found = this
  show ?thesis
  proof (cases "r_snapshot r")
    case None
    with assms found show ?thesis by (simp add: on_replay_start_def)
  next
    case (Some snap)
    let ?n = "nextTimer s"
    let ?endTid = "Suc ?n + length (r_timeline r)"
    let ?pre = "pending s @ [(?n, 150, EmitReplayInit (boardPayload snap))] @
                  timeline_timers (Suc ?n) (r_timeline r)"
    from assms(2) have old: "\<forall>q \<in> set (pending s). fst q < ?n"
      by (auto simp: fresh_timers_def list_all_iff)
    have tt: "\<forall>q \<in> set (timeline_timers (Suc ?n) (r_timeline r)). fst q < ?endTid"
      using timeline_timers_mem by fastforce
    have nend: "?endTid \<notin> fst ` set ?pre"
      using old tt by auto
    have "map_of (?pre @ [(?endTid, r_duration r + 900, FinishReplay)]) ?endTid =
        map_of [(?endTid, r_duration r + 900, FinishReplay)] ?endTid"
      by (rule map_of_append_absent [OF nend])
    then have look: "map_of (?pre @ [(?endTid, r_duration r + 900, FinishReplay)]) ?endTid =
        Some (r_duration r + 900, FinishReplay)"
      by simp
    from assms(3) have s': "s' = fst (projr (on_replay_start recId s))" by simp
    show ?thesis
      unfolding s' on_replay_start_eq [OF assms(1) found Some]
      using look by (simp add: end_timer_pending_iff)
  qed
qed

lemma step_end_timer:
  assumes "end_timer_pending s" and "rep_active s" and "step a s = Inr (s', out)"
      and "rep_active s'"
  shows "end_timer_pending s'"
proof (cases a)
  case (TimerFire tid)
  show ?thesis
  proof (cases "map_of (pending s) tid")
    case None
    with assms TimerFire show ?thesis by (simp add: fire_def)
  next
    case (Some dc)
    obtain delay cb where dc: "dc = (delay, cb)" by (cases dc)
    show ?thesis
    proof (cases "cb = FinishReplay")
      case True
      let ?s1 = "s\<lparr>pending := AList.delete tid (pending s)\<rparr>"
      from True assms(3) TimerFire Some dc have f: "finishReplay ?s1 = Inr (s', out)"
        by (simp add: fire_def)
      have "\<not> rep_active s'"
        using f by (cases "rep_preSnap ?s1") (auto simp: finishReplay_None finishReplay_Some)
      with assms(4) show ?thesis by simp
    next
      case False
      with Some dc assms(1) have ne: "tid \<noteq> last (rep_timers s)"
        by (auto simp: end_timer_pending_iff)
      from False assms(3) TimerFire Some dc
      have "pending s' = AList.delete tid (pending s)" and "rep_timers s' = rep_timers s"
        by (cases cb; simp add: fire_def; fastforce)+
      with assms(1) ne show ?thesis
        by (simp add: end_timer_pending_iff)
    qed
  qed
next
  case (Client sid clk e)
  consider (start) recId where "e = ReplayStart recId" | (stop) "e = ReplayStop"
    | (other) "\<forall>recId. e \<noteq> ReplayStart recId" "e \<noteq> ReplayStop"
    by blast
  then show ?thesis
  proof cases
    case start
    with assms Client show ?thesis by (simp add: on_replay_start_def)
  next
    case stop
    with assms(2,3) Client have f: "finishReplay s = Inr (s', out)"
      by (simp add: on_replay_stop_def)
    have "\<not> rep_active s'"
      using f by (cases "rep_preSnap s") (auto simp: finishReplay_None finishReplay_Some)
    with assms(4) show ?thesis by simp
  next
    case other
    from assms(3) Client have "handle sid clk e s = Inr (s', out)" by simp
    from handle_rep_frame [OF this other] assms(1) show ?thesis
      by (simp add: end_timer_pending_def)
  qed
qed

lemma replay_alive_end_timer:
  assumes "replay_alive s acts = Some s'" and "rep_active s" and "end_timer_pending s"
  shows "end_timer_pending s'"
  using assms
proof (induction acts arbitrary: s)
  case Nil
  then show ?case by simp
next
  case (Cons a acts)
  from Cons.prems(1) obtain s1 out where
    st: "step a s = Inr (s1, out)" and act: "rep_active s1" and rest: "replay_alive s1 acts = Some s'"
    by (auto split: sum.splits if_splits)
  from step_end_timer [OF Cons.prems(3,2) st act] have "end_timer_pending s1" .
  from Cons.IH [OF rest act this] show ?case .
qed

text \<open>
  Claim C1. Take a replay that starts in a state \<open>s0\<close> and is still active after any
  further actions. Then \<open>replay-stop\<close>, and equally the end timer of the replay, which is
  still pending and fires at the scheduled end, returns normally and: removes every
  timer listed in \<open>rep.timers\<close> from the timer table, so that no re-emission and no end
  timer stays pending (only delayed \<open>replay-init\<close> messages can remain); leaves the
  strokes, the arrows and the tokens of \<open>s0\<close>, the state just before \<open>replay-start\<close>, in
  the store, whatever the snapshot of the recording holds and whatever was drawn during
  the replay; emits \<open>clear-board\<close>, \<open>tokens-cleared\<close>, \<open>replay-restore\<close> carrying the
  strokes, the arrows and the token values of \<open>s0\<close>, and \<open>replay-done\<close>, in this order
  and to all connections; and leaves the replay engine idle. The hypotheses \<open>tracked s0\<close>
  and \<open>fresh_timers s0\<close> hold in every state the server reaches (\<open>tracked_initial\<close>,
  \<open>run_tracked\<close>, \<open>fresh_timers_initial\<close>, \<open>run_fresh\<close>).
\<close>

theorem replay_end_restores_pre_replay_board:
  assumes "tracked s0" and "fresh_timers s0" and "\<not> rep_active s0"
      and "handle sid clk (ReplayStart recId) s0 = Inr (s1, out1)" and "rep_active s1"
      and "replay_alive s1 acts = Some s2"
  shows "\<exists>s3. handle sid' clk' ReplayStop s2 =
             Inr (s3, [(All, ''clear-board'', PNone), (All, ''tokens-cleared'', PNone),
                       (All, ''replay-restore'',
                          PBoard (strokes s0) (arrows s0) (map snd (tokens s0))),
                       (All, ''replay-done'', PNone)]) \<and>
           end_timer_pending s2 \<and>
           step (TimerFire (last (rep_timers s2))) s2 =
             Inr (s3, [(All, ''clear-board'', PNone), (All, ''tokens-cleared'', PNone),
                       (All, ''replay-restore'',
                          PBoard (strokes s0) (arrows s0) (map snd (tokens s0))),
                       (All, ''replay-done'', PNone)]) \<and>
           strokes s3 = strokes s0 \<and> arrows s3 = arrows s0 \<and> tokens s3 = tokens s0 \<and>
           \<not> rep_active s3 \<and> rep_timers s3 = [] \<and> rep_currentRecId s3 = None \<and>
           list_all (\<lambda>(tid, delay, cb). is_replay_init cb) (pending s3) \<and>
           (\<forall>tid \<in> set (rep_timers s2). map_of (pending s3) tid = None)"
proof -
  let ?out = "[(All, ''clear-board'', PNone), (All, ''tokens-cleared'', PNone),
               (All, ''replay-restore'', PBoard (strokes s0) (arrows s0) (map snd (tokens s0))),
               (All, ''replay-done'', PNone)]"
  from assms(4) have start: "on_replay_start recId s0 = Inr (s1, out1)" by simp
  have pre1: "rep_preSnap s1 = Some (snapState s0)"
    using start assms(3,5)
    by (auto simp: on_replay_start_def Let_def schedule_timeline_eq setTimeout_def
        split: option.splits)
  from on_replay_start_tracked [OF assms(1) start] have t1: "tracked s1" .
  from on_replay_start_end_timer [OF assms(3,2) start assms(5)] have e1: "end_timer_pending s1" .
  from replay_alive_inv [OF assms(6,5) t1] pre1
  have act2: "rep_active s2" and t2: "tracked s2" and pre2: "rep_preSnap s2 = Some (snapState s0)"
    by simp_all
  from replay_alive_end_timer [OF assms(6,5) e1] have e2: "end_timer_pending s2" .
  let ?s3 = "s2\<lparr>pending := filter (\<lambda>q. fst q \<notin> set (rep_timers s2)) (pending s2),
                  rep_timers := [], rep_active := False, rep_currentRecId := None,
                  strokes := snap_strokes (snapState s0), arrows := snap_arrows (snapState s0),
                  tokens := snap_tokens (snapState s0)\<rparr>"
  have out: "replay_end_emissions (snapState s0) = ?out"
    by (simp add: replay_end_emissions_def boardPayload_def snapState_def)
  have fin: "finishReplay s2 = Inr (?s3, ?out)"
    by (simp add: finishReplay_Some [OF pre2] boardPayload_def snapState_def)
  have stop: "handle sid' clk' ReplayStop s2 = Inr (?s3, ?out)"
    using act2 fin by (simp add: on_replay_stop_def)
  from e2 obtain delay where
    m: "map_of (pending s2) (last (rep_timers s2)) = Some (delay, FinishReplay)"
    and ne: "rep_timers s2 \<noteq> []"
    by (auto simp: end_timer_pending_iff)
  have timer: "step (TimerFire (last (rep_timers s2))) s2 = Inr (?s3, ?out)"
  proof -
    let ?tid = "last (rep_timers s2)"
    from ne have mem: "?tid \<in> set (rep_timers s2)" by simp
    let ?s = "s2\<lparr>pending := AList.delete ?tid (pending s2)\<rparr>"
    have pre: "rep_preSnap ?s = Some (snapState s0)" using pre2 by simp
    have "filter (\<lambda>q. fst q \<notin> set (rep_timers s2)) (AList.delete ?tid (pending s2)) =
          filter (\<lambda>q. fst q \<notin> set (rep_timers s2)) (pending s2)"
      using mem by (auto simp: AList.delete_eq intro: filter_cong)
    then have "finishReplay ?s = Inr (?s3, ?out)"
      by (simp add: finishReplay_Some [OF pre] boardPayload_def snapState_def)
    with m show ?thesis by (simp add: fire_def)
  qed
  have rest: "list_all (\<lambda>(tid, delay, cb). is_replay_init cb) (pending ?s3)"
    using finishReplay_tracked [OF t2 fin] by simp
  have gone: "\<forall>tid \<in> set (rep_timers s2). map_of (pending ?s3) tid = None"
    by (auto simp: map_of_eq_None_iff)
  have snap: "strokes ?s3 = strokes s0" "arrows ?s3 = arrows s0" "tokens ?s3 = tokens s0"
    by (simp_all add: snapState_def)
  from stop e2 timer rest gone snap show ?thesis
    by (intro exI [of _ ?s3]) simp
qed

theorem replay_end_restores_pre_replay_board_witness:
  "tracked drawnServer \<and> fresh_timers drawnServer \<and> \<not> rep_active drawnServer \<and>
   handle ''a'' (clockAt 20) (ReplayStart 1) drawnServer =
     Inr (replayingServer,
          [(All, ''clear-board'', PNone), (All, ''tokens-cleared'', PNone),
           (All, ''replay-started'', PReplayStarted 500 1)]) \<and>
   rep_active replayingServer \<and>
   replay_alive replayingServer [TimerFire 1, Client ''b'' (clockAt 400) (StrokeDone strokeB)] =
     Some midReplayServer \<and>
   strokes drawnServer = [strokeA] \<and> strokes replayingServer = [] \<and>
   strokes midReplayServer = [strokeB] \<and>
   last (rep_timers midReplayServer) = 3 \<and>
   (\<exists>s3. handle ''b'' (clockAt 500) ReplayStop midReplayServer =
           Inr (s3, [(All, ''clear-board'', PNone), (All, ''tokens-cleared'', PNone),
                     (All, ''replay-restore'', PBoard [strokeA] [] []),
                     (All, ''replay-done'', PNone)]) \<and>
         end_timer_pending midReplayServer \<and>
         step (TimerFire 3) midReplayServer =
           Inr (s3, [(All, ''clear-board'', PNone), (All, ''tokens-cleared'', PNone),
                     (All, ''replay-restore'', PBoard [strokeA] [] []),
                     (All, ''replay-done'', PNone)]) \<and>
         strokes s3 = [strokeA] \<and> arrows s3 = [] \<and> tokens s3 = [] \<and>
         \<not> rep_active s3 \<and> rep_timers s3 = [] \<and> rep_currentRecId s3 = None \<and>
         list_all (\<lambda>(tid, delay, cb). is_replay_init cb) (pending s3))"
proof -
  have h1: "tracked drawnServer"
    by (simp add: drawnServer_eq loadedServer_def tracked_def initial_def)
  have h1': "fresh_timers drawnServer"
    by (simp add: drawnServer_eq loadedServer_def fresh_timers_def initial_def)
  have h2: "\<not> rep_active drawnServer"
    by (simp add: drawnServer_eq loadedServer_def initial_def)
  have h3: "handle ''a'' (clockAt 20) (ReplayStart 1) drawnServer =
     Inr (replayingServer,
          [(All, ''clear-board'', PNone), (All, ''tokens-cleared'', PNone),
           (All, ''replay-started'', PReplayStarted 500 1)])"
    using replayingServer_eq(1) by simp
  have h4: "rep_active replayingServer"
    by (simp add: replayingServer_eq(2))
  note h5 = midReplayServer_eq(1)
  have e0: "strokes drawnServer = [strokeA]" "arrows drawnServer = []" "tokens drawnServer = []"
    by (simp_all add: drawnServer_eq loadedServer_def initial_def)
  have e1: "strokes replayingServer = []" "strokes midReplayServer = [strokeB]"
    by (simp_all add: midReplayServer_eq(2) replayingServer_eq(2) loadedServer_def initial_def)
  have e2: "last (rep_timers midReplayServer) = 3"
    by (simp add: midReplayServer_eq(2) replayingServer_eq(2))
  from replay_end_restores_pre_replay_board [OF h1 h1' h2 h3 h4 h5, of "''b''" "clockAt 500"]
  have "\<exists>s3. handle ''b'' (clockAt 500) ReplayStop midReplayServer =
           Inr (s3, [(All, ''clear-board'', PNone), (All, ''tokens-cleared'', PNone),
                     (All, ''replay-restore'', PBoard [strokeA] [] []),
                     (All, ''replay-done'', PNone)]) \<and>
         end_timer_pending midReplayServer \<and>
         step (TimerFire 3) midReplayServer =
           Inr (s3, [(All, ''clear-board'', PNone), (All, ''tokens-cleared'', PNone),
                     (All, ''replay-restore'', PBoard [strokeA] [] []),
                     (All, ''replay-done'', PNone)]) \<and>
         strokes s3 = [strokeA] \<and> arrows s3 = [] \<and> tokens s3 = [] \<and>
         \<not> rep_active s3 \<and> rep_timers s3 = [] \<and> rep_currentRecId s3 = None \<and>
         list_all (\<lambda>(tid, delay, cb). is_replay_init cb) (pending s3)"
    unfolding e0 e2 list.map by blast
  with h1 h1' h2 h3 h4 h5 e0 e1 e2 show ?thesis by blast
qed

subsection \<open>Token ids in every state\<close>

text \<open>
  Every action keeps the keys of the tokens distinct and the id of each token equal to
  its key, in the store and in every snapshot: a snapshot is always a copy of the store,
  and the store is replaced only by such a snapshot. In a process that starts without
  persisted tokens every action also keeps the ids among those its counter has issued.
\<close>

lemma toks_wf_mono: "toks_wf P toks \<Longrightarrow> (\<And>k. P k \<Longrightarrow> Q k) \<Longrightarrow> toks_wf Q toks"
  by (auto simp: toks_wf_def list_all_iff)

lemma snap_wf_simps [simp]:
  "snap_wf P None" "snap_wf P (Some p) = toks_wf P (snap_tokens p)"
  by (simp_all add: snap_wf_def)

lemma snap_wf_mono: "snap_wf P so \<Longrightarrow> (\<And>k. P k \<Longrightarrow> Q k) \<Longrightarrow> snap_wf Q so"
  by (cases so) (auto intro: toks_wf_mono)

lemma all_wf_mono:
  assumes "all_wf P s" and "\<And>k. P k \<Longrightarrow> Q k"
  shows "all_wf Q s"
  using assms
  by (auto simp: all_wf_def list_all_iff intro: toks_wf_mono snap_wf_mono)

lemma toks_wf_Nil [simp]: "toks_wf P []"
  by (simp add: toks_wf_def)

lemma map_fst_map_entry: "map fst (AList.map_entry k f al) = map fst al"
  by (induction al) auto

lemma toks_wf_map_entry:
  assumes "toks_wf P toks" and "\<And>t. tk_id (f t) = tk_id t"
  shows "toks_wf P (AList.map_entry k f toks)"
proof -
  have "list_all (\<lambda>(k, t). tk_id t = k \<and> P k) toks \<Longrightarrow>
        list_all (\<lambda>(k, t). tk_id t = k \<and> P k) (AList.map_entry k f toks)"
    by (induction toks) (auto simp: assms(2))
  with assms(1) show ?thesis
    by (simp add: toks_wf_def map_fst_map_entry)
qed

lemma toks_wf_delete:
  assumes "toks_wf P toks"
  shows "toks_wf P (AList.delete k toks)"
proof -
  from assms have "distinct (map fst (AList.delete k toks))"
    by (simp add: toks_wf_def AList.distinct_delete)
  moreover have "set (AList.delete k toks) \<subseteq> set toks"
    by (auto simp: AList.delete_eq)
  ultimately show ?thesis
    using assms by (auto simp: toks_wf_def list_all_iff)
qed

lemma set_update_subset: "set (AList.update k v al) \<subseteq> insert (k, v) (set al)"
  by (induction al) auto

lemma toks_wf_update:
  assumes "toks_wf P toks" and "P k" and "tk_id t = k"
  shows "toks_wf P (AList.update k t toks)"
proof -
  from assms(1) have "distinct (map fst (AList.update k t toks))"
    by (simp add: toks_wf_def AList.distinct_update)
  with assms set_update_subset [of k t toks] show ?thesis
    by (auto simp: toks_wf_def list_all_iff)
qed

lemma find_Some_mem: "find P xs = Some x \<Longrightarrow> x \<in> set xs"
  by (auto simp: find_Some_iff)

lemma list_all_update: "list_all P xs \<Longrightarrow> P y \<Longrightarrow> list_all P (xs[i := y])"
  by (auto simp: list_all_iff dest!: set_update_subset_insert [THEN subsetD])

lemma list_all_splice1: "list_all P xs \<Longrightarrow> list_all P (splice1 i xs)"
  using set_splice1 [of i xs] by (auto simp: list_all_iff)

lemma list_all_nth: "list_all P xs \<Longrightarrow> i < length xs \<Longrightarrow> P (xs ! i)"
  by (simp add: list_all_iff)

lemma token_add_all_wf:
  assumes "all_wf P s" and "P (tokenIdOf (nextTokenId s))"
  shows "all_wf P (fst (on_token_add clk token s))"
  using assms
  by (simp add: all_wf_def on_token_add_def Let_def toks_wf_update)

lemma token_edit_all_wf:
  assumes "all_wf P s"
  shows "all_wf P (fst (on_token_move sid clk i x y s))"
    and "all_wf P (fst (on_token_relabel clk i label s))"
    and "all_wf P (fst (on_token_remove clk i s))"
    and "all_wf P (fst (on_clear_board clk s))"
  using assms
  by (simp_all add: all_wf_def on_token_move_def on_token_relabel_def on_token_remove_def
      on_clear_board_def Let_def toks_wf_map_entry toks_wf_delete)

lemma rename_recording_all_wf:
  assumes "all_wf P s"
  shows "all_wf P (fst (on_rename_recording recId newName s))"
proof (cases "findIndex (\<lambda>r. r_id r = recId) (recordings s)")
  case None
  with assms show ?thesis by (simp add: on_rename_recording_def)
next
  case (Some idx)
  let ?P = "\<lambda>r. snap_wf P (r_snapshot r)"
  from assms have all: "list_all ?P (recordings s)" by (simp add: all_wf_def)
  from Some have "idx < length (recordings s)" by (simp add: findIndex_Some_less)
  from list_all_nth [OF all this] have "?P ((recordings s ! idx)\<lparr>r_name := newName\<rparr>)"
    by simp
  with all have "list_all ?P ((recordings s)[idx := (recordings s ! idx)\<lparr>r_name := newName\<rparr>])"
    by (rule list_all_update)
  with assms Some show ?thesis
    by (simp add: on_rename_recording_def all_wf_def Let_def)
qed

lemma delete_recording_all_wf:
  assumes "all_wf P s"
  shows "all_wf P (fst (on_delete_recording recId s))"
  using assms
  by (cases "findIndex (\<lambda>r. r_id r = recId) (recordings s)")
     (simp_all add: on_delete_recording_def all_wf_def Let_def list_all_splice1)

lemma recording_start_all_wf:
  assumes "all_wf P s"
  shows "all_wf P (fst (on_recording_start clk s))"
proof (cases "rec_active s \<or> rep_active s")
  case True
  with assms show ?thesis by (simp add: on_recording_start_def)
next
  case False
  with assms show ?thesis
    by (simp add: on_recording_start_def all_wf_def snapState_def)
qed

lemma recording_stop_all_wf:
  assumes "all_wf P s"
  shows "all_wf P (fst (on_recording_stop clk s))"
proof (cases "rec_active s")
  case True
  with assms show ?thesis
    by (simp add: on_recording_stop_def all_wf_def Let_def)
next
  case False
  with assms show ?thesis by (simp add: on_recording_stop_def)
qed

lemma rename_preset_all_wf:
  assumes "all_wf P s"
  shows "all_wf P (fst (on_rename_preset presetId newName s))"
proof (cases "findIndex (\<lambda>p. p_id p = presetId) (boardPresets s)")
  case None
  with assms show ?thesis by (simp add: on_rename_preset_def)
next
  case (Some idx)
  let ?P = "\<lambda>p. toks_wf P (p_tokens p)"
  from assms have all: "list_all ?P (boardPresets s)" by (simp add: all_wf_def)
  from Some have "idx < length (boardPresets s)" by (simp add: findIndex_Some_less)
  from list_all_nth [OF all this] have "?P ((boardPresets s ! idx)\<lparr>p_name := newName\<rparr>)"
    by simp
  with all have "list_all ?P ((boardPresets s)[idx := (boardPresets s ! idx)\<lparr>p_name := newName\<rparr>])"
    by (rule list_all_update)
  with assms Some show ?thesis
    by (simp add: on_rename_preset_def all_wf_def Let_def)
qed

lemma delete_preset_all_wf:
  assumes "all_wf P s"
  shows "all_wf P (fst (on_delete_preset presetId s))"
  using assms
  by (cases "findIndex (\<lambda>p. p_id p = presetId) (boardPresets s)")
     (simp_all add: on_delete_preset_def all_wf_def Let_def list_all_splice1)

lemma save_preset_all_wf:
  assumes "all_wf P s"
  shows "all_wf P (fst (on_save_preset sid clk name s))"
  using assms
  by (simp add: on_save_preset_def all_wf_def Let_def)

lemma load_preset_all_wf:
  assumes "all_wf P s"
  shows "all_wf P (fst (on_load_preset presetId s))"
proof (cases "find (\<lambda>p. p_id p = presetId) (boardPresets s)")
  case None
  with assms show ?thesis by (simp add: on_load_preset_def)
next
  case (Some preset)
  then have "preset \<in> set (boardPresets s)" by (rule find_Some_mem)
  with assms have "toks_wf P (p_tokens preset)"
    by (simp add: all_wf_def list_all_iff)
  with assms Some show ?thesis
    by (simp add: on_load_preset_def all_wf_def)
qed

lemma finishReplay_all_wf:
  assumes "all_wf P s" and "finishReplay s = Inr (s', out)"
  shows "all_wf P s' \<and> nextTokenId s' = nextTokenId s"
proof (cases "rep_preSnap s")
  case None
  with assms(2) show ?thesis by (simp add: finishReplay_None)
next
  case (Some p)
  with assms(1) have "toks_wf P (snap_tokens p)"
    by (simp add: all_wf_def)
  moreover from assms(2) Some have "s' = fst (projr (finishReplay s))" by simp
  ultimately show ?thesis
    using assms(1) by (simp add: finishReplay_Some [OF Some] all_wf_def)
qed

lemma replay_start_all_wf:
  assumes "all_wf P s" and "on_replay_start recId s = Inr (s', out)"
  shows "all_wf P s' \<and> nextTokenId s' = nextTokenId s"
proof (cases "rep_active s")
  case True
  with assms show ?thesis by (simp add: on_replay_start_def)
next
  case False
  show ?thesis
  proof (cases "find (\<lambda>r. r_id r = recId) (recordings s)")
    case None
    with assms False show ?thesis by (simp add: on_replay_start_def)
  next
    case (Some r)
    note found = this
    then have mem: "r \<in> set (recordings s)" by (rule find_Some_mem)
    show ?thesis
    proof (cases "r_snapshot r")
      case None
      with assms False found show ?thesis by (simp add: on_replay_start_def)
    next
      case (Some snap)
      from assms(1) mem Some have "toks_wf P (snap_tokens snap)"
        by (auto simp: all_wf_def list_all_iff)
      moreover from assms(2) have s': "s' = fst (projr (on_replay_start recId s))" by simp
      ultimately show ?thesis
        using assms(1)
        unfolding s' on_replay_start_eq [OF False found Some]
        by (simp add: all_wf_def snapState_def)
    qed
  qed
qed


lemma handle_all_wf:
  assumes "all_wf P s" and "handle sid clk e s = Inr (s', out)"
      and "\<forall>token. e \<noteq> TokenAdd token"
  shows "all_wf P s' \<and> nextTokenId s' = nextTokenId s"
proof (cases e)
  case (TokenAdd token)
  with assms(3) show ?thesis by simp
next
  case (TokenMove i x y)
  with assms(2) have "s' = fst (on_token_move sid clk i x y s)" by auto
  with assms(1) show ?thesis
    by (simp add: token_edit_all_wf) (simp add: on_token_move_def Let_def)
next
  case (TokenRemove i)
  with assms(2) have "s' = fst (on_token_remove clk i s)" by auto
  with assms(1) show ?thesis
    by (simp add: token_edit_all_wf) (simp add: on_token_remove_def Let_def)
next
  case (TokenRelabel i label)
  with assms(2) have "s' = fst (on_token_relabel clk i label s)" by auto
  with assms(1) show ?thesis
    by (simp add: token_edit_all_wf) (simp add: on_token_relabel_def Let_def)
next
  case ClearBoard
  with assms(2) have "s' = fst (on_clear_board clk s)" by auto
  with assms(1) show ?thesis
    by (simp add: token_edit_all_wf) (simp add: on_clear_board_def Let_def)
next
  case RecordingStart
  with assms(2) have "s' = fst (on_recording_start clk s)" by auto
  with assms(1) show ?thesis
    by (simp add: recording_start_all_wf) (simp add: on_recording_start_def)
next
  case RecordingStop
  with assms(2) have "s' = fst (on_recording_stop clk s)" by auto
  with assms(1) show ?thesis
    by (simp add: recording_stop_all_wf) (simp add: on_recording_stop_def Let_def)
next
  case (ReplayStart recId)
  with assms(2) have "on_replay_start recId s = Inr (s', out)" by simp
  with assms(1) show ?thesis by (rule replay_start_all_wf)
next
  case ReplayStop
  show ?thesis
  proof (cases "rep_active s")
    case True
    with assms(2) ReplayStop have "finishReplay s = Inr (s', out)"
      by (simp add: on_replay_stop_def)
    with assms(1) show ?thesis by (rule finishReplay_all_wf)
  next
    case False
    with assms ReplayStop show ?thesis by (simp add: on_replay_stop_def)
  qed
next
  case (RenameRecording recId newName)
  with assms(2) have "s' = fst (on_rename_recording recId newName s)" by auto
  with assms(1) show ?thesis
    by (simp add: rename_recording_all_wf)
       (simp add: on_rename_recording_def Let_def split: option.splits)
next
  case (DeleteRecording recId)
  with assms(2) have "s' = fst (on_delete_recording recId s)" by auto
  with assms(1) show ?thesis
    by (simp add: delete_recording_all_wf)
       (simp add: on_delete_recording_def Let_def split: option.splits)
next
  case (SavePreset name)
  with assms(2) have "s' = fst (on_save_preset sid clk name s)" by auto
  with assms(1) show ?thesis
    by (simp add: save_preset_all_wf) (simp add: on_save_preset_def Let_def)
next
  case (LoadPreset presetId)
  with assms(2) have "s' = fst (on_load_preset presetId s)" by auto
  with assms(1) show ?thesis
    by (simp add: load_preset_all_wf) (simp add: on_load_preset_def split: option.splits)
next
  case (RenamePreset presetId newName)
  with assms(2) have "s' = fst (on_rename_preset presetId newName s)" by auto
  with assms(1) show ?thesis
    by (simp add: rename_preset_all_wf)
       (simp add: on_rename_preset_def Let_def split: option.splits)
next
  case (DeletePreset presetId)
  with assms(2) have "s' = fst (on_delete_preset presetId s)" by auto
  with assms(1) show ?thesis
    by (simp add: delete_preset_all_wf)
       (simp add: on_delete_preset_def Let_def split: option.splits)
qed (use assms in \<open>auto simp: all_wf_def handler_defs Let_def\<close>)

lemma fire_all_wf:
  assumes "all_wf P s" and "fire tid s = Inr (s', out)"
  shows "all_wf P s' \<and> nextTokenId s' = nextTokenId s"
proof (cases "map_of (pending s) tid")
  case None
  with assms show ?thesis by (simp add: fire_def)
next
  case (Some dc)
  obtain delay cb where dc: "dc = (delay, cb)" by (cases dc)
  let ?s1 = "s\<lparr>pending := AList.delete tid (pending s)\<rparr>"
  have ok1: "all_wf P ?s1" using assms(1) by (simp add: all_wf_def)
  show ?thesis
  proof (cases cb)
    case (EmitReplayInit d)
    with assms(2) Some dc ok1 show ?thesis by (auto simp: fire_def)
  next
    case (ReEmit ev d)
    with assms(2) Some dc ok1 show ?thesis by (auto simp: fire_def)
  next
    case FinishReplay
    with assms(2) Some dc have "finishReplay ?s1 = Inr (s', out)"
      by (simp add: fire_def)
    from finishReplay_all_wf [OF ok1 this] show ?thesis by simp
  qed
qed

lemma step_all_keyed:
  assumes "all_keyed s" and "step a s = Inr (s', out)"
  shows "all_keyed s'"
proof (cases a)
  case (TimerFire tid)
  with assms(2) have "fire tid s = Inr (s', out)" by simp
  from fire_all_wf [OF _ this] assms(1) show ?thesis by (simp add: all_keyed_def)
next
  case (Client sid clk e)
  with assms(2) have h: "handle sid clk e s = Inr (s', out)" by simp
  show ?thesis
  proof (cases "\<exists>token. e = TokenAdd token")
    case True
    then obtain token where "e = TokenAdd token" by blast
    with h have "s' = fst (on_token_add clk token s)" by auto
    with assms(1) show ?thesis by (simp add: all_keyed_def token_add_all_wf)
  next
    case False
    then have "\<forall>token. e \<noteq> TokenAdd token" by blast
    from handle_all_wf [OF _ h this] assms(1) show ?thesis by (simp add: all_keyed_def)
  qed
qed

lemma step_all_tokens_ok:
  assumes "all_tokens_ok s" and "step a s = Inr (s', out)"
  shows "all_tokens_ok s'"
proof (cases a)
  case (TimerFire tid)
  with assms(2) have "fire tid s = Inr (s', out)" by simp
  from fire_all_wf [OF _ this] assms(1) show ?thesis by (simp add: all_tokens_ok_def)
next
  case (Client sid clk e)
  with assms(2) have h: "handle sid clk e s = Inr (s', out)" by simp
  show ?thesis
  proof (cases "\<exists>token. e = TokenAdd token")
    case True
    then obtain token where "e = TokenAdd token" by blast
    with h have s': "s' = fst (on_token_add clk token s)" by auto
    then have n: "nextTokenId s' = Suc (nextTokenId s)"
      by (simp add: on_token_add_def Let_def)
    from assms(1) have "all_wf (issued (Suc (nextTokenId s))) s"
      unfolding all_tokens_ok_def by (rule all_wf_mono) (erule issued_mono, simp)
    moreover have "issued (Suc (nextTokenId s)) (tokenIdOf (nextTokenId s))"
      by (auto simp: issued_iff)
    ultimately have "all_wf (issued (Suc (nextTokenId s))) s'"
      unfolding s' by (rule token_add_all_wf)
    with n show ?thesis by (simp add: all_tokens_ok_def)
  next
    case False
    then have "\<forall>token. e \<noteq> TokenAdd token" by blast
    from handle_all_wf [OF _ h this] assms(1) show ?thesis by (simp add: all_tokens_ok_def)
  qed
qed

lemma run_all_keyed:
  assumes "all_keyed s" and "run s acts = Inr (s', out)"
  shows "all_keyed s'"
  using assms
proof (induction acts arbitrary: s out)
  case Nil
  then show ?case by simp
next
  case (Cons a acts)
  from Cons.prems(2) obtain s1 out1 out2 where
    st: "step a s = Inr (s1, out1)" and rest: "run s1 acts = Inr (s', out2)"
    by (auto split: sum.splits prod.splits)
  from step_all_keyed [OF Cons.prems(1) st] have "all_keyed s1" .
  from Cons.IH [OF this rest] show ?case .
qed

lemma run_all_tokens_ok:
  assumes "all_tokens_ok s" and "run s acts = Inr (s', out)"
  shows "all_tokens_ok s'"
  using assms
proof (induction acts arbitrary: s out)
  case Nil
  then show ?case by simp
next
  case (Cons a acts)
  from Cons.prems(2) obtain s1 out1 out2 where
    st: "step a s = Inr (s1, out1)" and rest: "run s1 acts = Inr (s', out2)"
    by (auto split: sum.splits prod.splits)
  from step_all_tokens_ok [OF Cons.prems(1) st] have "all_tokens_ok s1" .
  from Cons.IH [OF this rest] show ?case .
qed

lemma all_keyed_initial:
  assumes "list_all (\<lambda>p. toks_wf (\<lambda>k. True) (p_tokens p)) presets"
      and "list_all (\<lambda>r. snap_wf (\<lambda>k. True) (r_snapshot r)) recs"
  shows "all_keyed (initial presets nextPreset recs nextRec)"
  using assms by (simp add: all_keyed_def all_wf_def initial_def)

lemma all_tokens_ok_initial:
  assumes "list_all (\<lambda>p. p_tokens p = []) presets"
      and "list_all (\<lambda>r. snap_wf (\<lambda>k. False) (r_snapshot r)) recs"
  shows "all_tokens_ok (initial presets nextPreset recs nextRec)"
proof -
  from assms(1) have "list_all (\<lambda>p. toks_wf (issued 1) (p_tokens p)) presets"
    by (auto simp: list_all_iff)
  moreover from assms(2) have "list_all (\<lambda>r. snap_wf (issued 1) (r_snapshot r)) recs"
    by (auto simp: list_all_iff intro: snap_wf_mono)
  ultimately show ?thesis
    by (simp add: all_tokens_ok_def all_wf_def initial_def)
qed

lemma all_keyed_store:
  "all_keyed s \<Longrightarrow>
   distinct (map fst (tokens s)) \<and> list_all (\<lambda>(k, t). tk_id t = k) (tokens s)"
  by (simp add: all_keyed_def all_wf_def toks_wf_def)

lemma all_tokens_ok_tokens_ok: "all_tokens_ok s \<Longrightarrow> tokens_ok s"
  by (simp add: all_tokens_ok_def all_wf_def tokens_ok_def toks_wf_def)

text \<open>
  In every state that the server reaches by any actions from a state that is
  \<open>all_keyed\<close>, the keys of the tokens in the store are distinct and every token carries
  its key as its id: no two tokens share one id. Every sequence of \<open>token-add\<close> events,
  from whichever connections, in a state that is \<open>tokens_ok\<close> returns normally; each
  event takes its id from the token counter and advances the counter by one; the new
  tokens are appended to the store under exactly these ids, which are distinct from each
  other and from the ids of the tokens already in the store. The server starts
  \<open>all_keyed\<close> when the persisted presets and recordings are keyed this way
  (\<open>all_keyed_initial\<close>). It starts \<open>tokens_ok\<close> (\<open>tokens_ok_initial\<close>) and stays so after
  every such sequence, and after every run of actions when it starts without persisted
  tokens (\<open>all_tokens_ok_initial\<close>, \<open>run_all_tokens_ok\<close>).
\<close>

lemma token_adds_assign_fresh_ids:
  "(all_keyed s0 \<and> run s0 acts = Inr (s1, out1) \<longrightarrow>
      distinct (map fst (tokens s1)) \<and> list_all (\<lambda>(k, t). tk_id t = k) (tokens s1)) \<and>
   (tokens_ok s \<longrightarrow>
      (\<exists>s' out. run s (token_adds adds) = Inr (s', out) \<and>
         nextTokenId s' = nextTokenId s + length adds \<and>
         tokens s' = tokens s @ added_tokens (nextTokenId s) adds \<and>
         out = map (\<lambda>(k, t). (All, ''token-add'', PToken t)) (added_tokens (nextTokenId s) adds) \<and>
         distinct (map fst (tokens s')) \<and>
         list_all (\<lambda>(k, t). tk_id t = k) (tokens s') \<and>
         tokens_ok s'))"
proof (rule conjI; rule impI)
  assume "all_keyed s0 \<and> run s0 acts = Inr (s1, out1)"
  then have "all_keyed s1" using run_all_keyed by blast
  then show "distinct (map fst (tokens s1)) \<and> list_all (\<lambda>(k, t). tk_id t = k) (tokens s1)"
    by (rule all_keyed_store)
next
  assume "tokens_ok s"
  then show "\<exists>s' out. run s (token_adds adds) = Inr (s', out) \<and>
         nextTokenId s' = nextTokenId s + length adds \<and>
         tokens s' = tokens s @ added_tokens (nextTokenId s) adds \<and>
         out = map (\<lambda>(k, t). (All, ''token-add'', PToken t)) (added_tokens (nextTokenId s) adds) \<and>
         distinct (map fst (tokens s')) \<and>
         list_all (\<lambda>(k, t). tk_id t = k) (tokens s') \<and>
         tokens_ok s'"
    by (rule token_adds_fresh)
qed

lemma twoTokensServer_run:
  "run emptyServer (token_adds twoAdds) =
     Inr (twoTokensServer,
          [(All, ''token-add'', PToken (tokenP\<lparr>tk_id := ''t1''\<rparr>)),
           (All, ''token-add'', PToken (tokenP\<lparr>tk_id := ''t2'', tk_createdBy := ''b''\<rparr>))])"
  by (simp add: token_adds_def twoAdds_def on_token_add_def Let_def emptyServer_def initial_def
      recordEvent_def tokenIdOf_1 tokenIdOf_2 twoTokensServer_def tokenP_def)

lemma token_adds_assign_fresh_ids_example:
  "all_keyed emptyServer \<and>
   run emptyServer (token_adds twoAdds) =
     Inr (twoTokensServer,
          [(All, ''token-add'', PToken (tokenP\<lparr>tk_id := ''t1''\<rparr>)),
           (All, ''token-add'', PToken (tokenP\<lparr>tk_id := ''t2'', tk_createdBy := ''b''\<rparr>))]) \<and>
   distinct (map fst (tokens twoTokensServer)) \<and>
   list_all (\<lambda>(k, t). tk_id t = k) (tokens twoTokensServer) \<and>
   map fst (tokens twoTokensServer) = [''t1'', ''t2''] \<and>
   tokens_ok emptyServer \<and>
   (\<exists>s' out. run emptyServer (token_adds twoAdds) = Inr (s', out) \<and>
      nextTokenId s' = nextTokenId emptyServer + length twoAdds \<and>
      tokens s' = tokens emptyServer @ added_tokens (nextTokenId emptyServer) twoAdds \<and>
      out = map (\<lambda>(k, t). (All, ''token-add'', PToken t))
              (added_tokens (nextTokenId emptyServer) twoAdds) \<and>
      distinct (map fst (tokens s')) \<and>
      list_all (\<lambda>(k, t). tk_id t = k) (tokens s') \<and>
      tokens_ok s')"
proof -
  have h1: "all_keyed emptyServer"
    by (simp add: emptyServer_def all_keyed_initial)
  note h2 = twoTokensServer_run
  note h3 = emptyServer_tokens_ok
  have e: "map fst (tokens twoTokensServer) = [''t1'', ''t2'']"
    by (simp add: twoTokensServer_def)
  note t = token_adds_assign_fresh_ids [of emptyServer "token_adds twoAdds" twoTokensServer
      "[(All, ''token-add'', PToken (tokenP\<lparr>tk_id := ''t1''\<rparr>)),
        (All, ''token-add'', PToken (tokenP\<lparr>tk_id := ''t2'', tk_createdBy := ''b''\<rparr>))]"
      emptyServer twoAdds]
  from t h1 h2 have c1: "distinct (map fst (tokens twoTokensServer)) \<and>
      list_all (\<lambda>(k, t). tk_id t = k) (tokens twoTokensServer)"
    by blast
  from t h3 have c2: "\<exists>s' out. run emptyServer (token_adds twoAdds) = Inr (s', out) \<and>
      nextTokenId s' = nextTokenId emptyServer + length twoAdds \<and>
      tokens s' = tokens emptyServer @ added_tokens (nextTokenId emptyServer) twoAdds \<and>
      out = map (\<lambda>(k, t). (All, ''token-add'', PToken t))
              (added_tokens (nextTokenId emptyServer) twoAdds) \<and>
      distinct (map fst (tokens s')) \<and>
      list_all (\<lambda>(k, t). tk_id t = k) (tokens s') \<and>
      tokens_ok s'"
    by blast
  from h1 h2 h3 e c1 c2 show ?thesis by blast
qed

subsection \<open>Token ids after a restart\<close>

lemma presetLoadedServer_not_tokens_ok: "\<not> tokens_ok presetLoadedServer"
proof -
  have "tokenIdOf 0 \<noteq> tokenIdOf (Suc 0)" by (simp add: tokenIdOf_inj)
  with tokenIdOf_1 have "''t1'' \<noteq> tokenIdOf 0" by simp
  then show ?thesis
    by (simp add: tokens_ok_def presetLoadedServer_def restartedServer_def initial_def
        issued_def)
qed

text \<open>
  Claim C6. The counter of the tokens is what makes the ids differ, and it starts at 1 in
  every process, while the counters of the presets and of the recordings are set past
  the persisted ids at start-up. A first process adds a token, which gets the id \<open>t1\<close>,
  and saves the board as preset 1. The next process starts with that preset, its preset
  counter at 2 and its token counter at 1. Connection \<open>a\<close> loads the preset, so the store
  holds the token \<open>t1\<close>; connection \<open>b\<close> adds a token. The id assigned to it is \<open>t1\<close>, the
  id of the token in the store, and the new token takes the place of the loaded one,
  where the claim says that every assigned id differs from every token currently in the
  store.
\<close>

theorem token_add_after_restart_reuses_stored_id:
  "run emptyServer [Client ''a'' (clockAt 10) (TokenAdd tokenP),
                    Client ''a'' (clockAt 30) (SavePreset ''Kickoff'')] =
     Inr (emptyServer\<lparr>tokens := [(''t1'', tokenP\<lparr>tk_id := ''t1''\<rparr>)], nextTokenId := 2,
                       boardPresets := [savedPreset], nextPresetId := 2\<rparr>,
          [(All, ''token-add'', PToken (tokenP\<lparr>tk_id := ''t1''\<rparr>)),
           (All, ''presets-list'',
              PPresetList [\<lparr>ps_id = 1, ps_name = ''Kickoff'', ps_timestamp = 30,
                             ps_strokeCount = 0, ps_arrowCount = 0, ps_tokenCount = 1\<rparr>]),
           (Origin ''a'', ''preset-saved'', PPresetSaved 1 ''Kickoff'')]) \<and>
   nextTokenId restartedServer = 1 \<and> nextPresetId restartedServer = 2 \<and>
   boardPresets restartedServer = [savedPreset] \<and> tokens restartedServer = [] \<and>
   handle ''a'' (clockAt 50) (LoadPreset 1) restartedServer =
     Inr (presetLoadedServer,
          [(All, ''clear-board'', PNone), (All, ''tokens-cleared'', PNone),
           (All, ''preset-loaded'', PBoard [] [] [tokenP\<lparr>tk_id := ''t1''\<rparr>])]) \<and>
   tokens presetLoadedServer = [(''t1'', tokenP\<lparr>tk_id := ''t1''\<rparr>)] \<and>
   handle ''b'' (clockAt 60) (TokenAdd tokenQ) presetLoadedServer =
     Inr (presetLoadedServer\<lparr>tokens := [(''t1'', tokenQ\<lparr>tk_id := ''t1''\<rparr>)], nextTokenId := 2\<rparr>,
          [(All, ''token-add'', PToken (tokenQ\<lparr>tk_id := ''t1''\<rparr>))]) \<and>
   tokenP\<lparr>tk_id := ''t1''\<rparr> \<noteq> tokenQ\<lparr>tk_id := ''t1''\<rparr>"
  by (simp add: emptyServer_def initial_def restartedServer_def presetLoadedServer_def
      savedPreset_def on_token_add_def on_save_preset_def on_load_preset_def Let_def
      recordEvent_def tokenIdOf_1 tokenP_def tokenQ_def clockAt_def getBoardPresetsList_def
      presetSummary_def)

end
